theory Spec2Isabelle
  imports Complex_Main "HOL-Library.Word" "HOL-Library.Stream" "HOL-Library.Numeral_Type"
begin

section \<open>The external collaborators\<close>

text \<open>
  The scheme of \<^verbatim>\<open>pvss.py\<close> and \<^verbatim>\<open>cpni.py\<close> runs over petlib: scalars are
  \<^verbatim>\<open>Bn\<close> (unbounded integers, here \<^typ>\<open>int\<close>) and group elements are \<^verbatim>\<open>EcPt\<close>
  (points of a curve of prime order \<open>p\<close>). A point is a value of an arbitrary
  additive abelian group \<open>'g\<close>; \<^verbatim>\<open>P + Q\<close> is the group's addition and
  \<^verbatim>\<open>k * P\<close> is repeated addition, defined below for every integer \<open>k\<close>. That the
  group has order \<open>p\<close> is a hypothesis of the theorems that need it, written
  \<open>\<forall>g. smul p g = 0\<close>.
\<close>

primrec nat_smul :: "nat \<Rightarrow> 'g::ab_group_add \<Rightarrow> 'g" where
  "nat_smul 0 g = 0"
| "nat_smul (Suc n) g = g + nat_smul n g"

definition smul :: "int \<Rightarrow> 'g::ab_group_add \<Rightarrow> 'g" where
  "smul k g = (if 0 \<le> k then nat_smul (nat k) g else - nat_smul (nat (- k)) g)"

text \<open>
  Python's exceptions. The source raises \<^verbatim>\<open>AssertionError\<close> from its
  \<^verbatim>\<open>assert\<close> statements, \<^verbatim>\<open>IndexError\<close> from reading position 0 of an empty list,
  and petlib raises a plain \<^verbatim>\<open>Exception\<close> when \<^verbatim>\<open>mod_inverse\<close> finds no inverse.
\<close>

datatype error = AssertionError | IndexError | NoInverse

type_synonym byte = "8 word"

text \<open>
  \<^verbatim>\<open>Bn.from_binary\<close> reads a byte string as a big-endian unsigned integer.
\<close>

definition from_binary :: "byte list \<Rightarrow> int" where
  "from_binary bs = foldl (\<lambda>acc b. acc * 256 + uint b) 0 bs"

text \<open>
  What \<^verbatim>\<open>hash\<close> is applied to: a single point (the single proof) or a list of
  points (the batch proof). \<^verbatim>\<open>petlib.pack.encode\<close> and \<^verbatim>\<open>hashlib.sha256\<close> are
  external; every function that hashes takes them as the parameters \<open>enc\<close> and
  \<open>sha\<close>.
\<close>

datatype 'g packed = Pt 'g | Pts "'g list"

text \<open>
  \<^verbatim>\<open>
  def hash(p, h_1, h_2, a_1, a_2) -> Bn:
      bin_hash = sha256(encode([h_1, h_2, a_1, a_2])).digest()
      return Bn.from_binary(bin_hash)
  \<close>
\<close>

definition hash :: "(byte list \<Rightarrow> byte list) \<Rightarrow> ('g packed list \<Rightarrow> byte list) \<Rightarrow>
    int \<Rightarrow> 'g packed \<Rightarrow> 'g packed \<Rightarrow> 'g packed \<Rightarrow> 'g packed \<Rightarrow> int" where
  "hash sha enc p h_1 h_2 a_1 a_2 = from_binary (sha (enc [h_1, h_2, a_1, a_2]))"

text \<open>
  \<^verbatim>\<open>p.random()\<close> draws a scalar. The sampler is the stream of the values it will
  return; a call takes the head and leaves the tail, and a comprehension of \<open>n\<close>
  draws takes the first \<open>n\<close> values. Nothing is assumed of the values drawn.
\<close>

type_synonym rng = "int stream"

definition random :: "int \<Rightarrow> rng \<Rightarrow> int \<times> rng" where
  "random p rng = (shd rng, stl rng)"

definition randoms :: "int \<Rightarrow> nat \<Rightarrow> rng \<Rightarrow> int list \<times> rng" where
  "randoms p n rng = (stake n rng, sdrop n rng)"

text \<open>
  \<^verbatim>\<open>b.mod_inverse(p)\<close>: the \<open>y\<close> of \<open>[0, p)\<close> with \<open>b * y\<close> congruent to 1, and an
  exception when there is none.
\<close>

definition mod_inverse :: "int \<Rightarrow> int \<Rightarrow> error + int" where
  "mod_inverse b p =
     (case find (\<lambda>y. (b * y) mod p = 1) [0..p - 1] of
        None \<Rightarrow> Inl NoInverse
      | Some y \<Rightarrow> Inr y)"

text \<open>A list comprehension whose body may raise: the first exception wins.\<close>

fun sequence :: "(error + 'a) list \<Rightarrow> error + 'a list" where
  "sequence [] = Inr []"
| "sequence (Inl e # rs) = Inl e"
| "sequence (Inr x # rs) = (case sequence rs of Inl e \<Rightarrow> Inl e | Inr xs \<Rightarrow> Inr (x # xs))"

text \<open>
  The parameter tuple \<^verbatim>\<open>(Gq, p, g0, h)\<close>: the group \<^verbatim>\<open>Gq\<close> is never used by the
  functions and is the type \<open>'g\<close> here; the rest is the order and two generators.
\<close>

type_synonym 'g params = "int \<times> 'g \<times> 'g"

definition is_prime :: "int \<Rightarrow> bool" where
  "is_prime p = (1 < p \<and> list_all (\<lambda>d. \<not> d dvd p) [2..p - 1])"

section \<open>pvss.py: polynomial, shares and commitments\<close>

text \<open>
  \<^verbatim>\<open>
  def gen_polynomial(k, secret, p):
      px_rand = [p.random() for i in range(k-1)]
      px = [secret] + px_rand
      return px
  \<close>
\<close>

definition gen_polynomial :: "int \<Rightarrow> int \<Rightarrow> int \<Rightarrow> rng \<Rightarrow> error + (int list \<times> rng)" where
  "gen_polynomial k secret p rng =
     (let (px_rand, rng') = randoms p (nat (k - 1)) rng;
          px = [secret] @ px_rand
      in Inr (px, rng'))"

text \<open>
  \<^verbatim>\<open>
  def __calc_share(px, k, x, p):
      assert len(px) == k
      result = 0
      for (alpha, j) in zip(px, range(k)):
          result = (result + alpha * (x**j)) % p
      return result
  \<close>
  \<^verbatim>\<open>%\<close> on \<^verbatim>\<open>Bn\<close> is the non-negative remainder, which is \<open>mod\<close> for the
  positive moduli the theorems are about.
\<close>

definition calc_share :: "int list \<Rightarrow> int \<Rightarrow> int \<Rightarrow> int \<Rightarrow> error + int" where
  "calc_share px k x p =
     (if int (length px) \<noteq> k then Inl AssertionError
      else Inr (foldl (\<lambda>result (alpha, j). (result + alpha * (x ^ j)) mod p) 0
                  (zip px [0..<nat k])))"

definition calc_shares :: "int list \<Rightarrow> int \<Rightarrow> int \<Rightarrow> int \<Rightarrow> error + int list" where
  "calc_shares px k n p = sequence (map (\<lambda>i. calc_share px k i p) [1..n])"

definition get_commitments :: "'g::ab_group_add \<Rightarrow> int list \<Rightarrow> 'g list" where
  "get_commitments h px = map (\<lambda>p_i. smul p_i h) px"

definition get_encrypted_shares :: "'g::ab_group_add list \<Rightarrow> int list \<Rightarrow> error + 'g list" where
  "get_encrypted_shares pub_keys shares =
     (if length pub_keys \<noteq> length shares then Inl AssertionError
      else Inr (map (\<lambda>(y_i, i). smul (shares ! i) y_i) (zip pub_keys [0..<length pub_keys])))"

section \<open>cpni.py: the Chaum-Pedersen proofs\<close>

text \<open>
  \<^verbatim>\<open>
  def __get_X_i(C_list, i):
      i = Bn(i)
      elements = [(i**j) * C_j for (C_j, j) in zip(C_list, range(len(C_list)))]
      ans = elements[0]
      for e in elements[1:]:
          ans = ans + e
      return ans
  \<close>
\<close>

definition get_X_i :: "'g::ab_group_add list \<Rightarrow> int \<Rightarrow> error + 'g" where
  "get_X_i C_list i =
     (let elements = map (\<lambda>(C_j, j). smul (i ^ j) C_j) (zip C_list [0..<length C_list])
      in case elements of
           [] \<Rightarrow> Inl IndexError
         | e0 # es \<Rightarrow> Inr (foldl (\<lambda>ans e. ans + e) e0 es))"

definition get_X_i_list :: "'g::ab_group_add list \<Rightarrow> int \<Rightarrow> error + 'g list" where
  "get_X_i_list commitments n = sequence (map (\<lambda>i. get_X_i commitments i) [1..n])"

definition DLEQ_prover_calc_a :: "'g::ab_group_add \<Rightarrow> 'g \<Rightarrow> int \<Rightarrow> 'g \<times> 'g" where
  "DLEQ_prover_calc_a g_1 g_2 w = (smul w g_1, smul w g_2)"

definition DLEQ_verifyer_calc_a ::
    "int \<Rightarrow> int \<Rightarrow> 'g::ab_group_add \<Rightarrow> 'g \<Rightarrow> 'g \<Rightarrow> 'g \<Rightarrow> 'g \<times> 'g" where
  "DLEQ_verifyer_calc_a r c g_1 h_1 g_2 h_2 =
     (smul r g_1 + smul c h_1, smul r g_2 + smul c h_2)"

definition DLEQ_calc_r :: "int \<Rightarrow> int \<Rightarrow> int \<Rightarrow> int \<Rightarrow> int" where
  "DLEQ_calc_r p w alpha c = (w - c * alpha) mod p"

definition DLEQ_calc_all_r :: "int \<Rightarrow> int list \<Rightarrow> int list \<Rightarrow> int \<Rightarrow> int list" where
  "DLEQ_calc_all_r p shares_list w_list c =
     map (\<lambda>(alpha, w). DLEQ_calc_r p w alpha c) (zip shares_list w_list)"

text \<open>The single proof is the tuple \<^verbatim>\<open>(c, r, a_1, a_2)\<close>.\<close>

type_synonym 'g single_proof = "int \<times> int \<times> 'g \<times> 'g"

definition DLEQ_prove :: "(byte list \<Rightarrow> byte list) \<Rightarrow> ('g packed list \<Rightarrow> byte list) \<Rightarrow>
    'g::ab_group_add params \<Rightarrow> 'g \<Rightarrow> 'g \<Rightarrow> 'g \<Rightarrow> 'g \<Rightarrow> int \<Rightarrow> rng \<Rightarrow> 'g single_proof \<times> rng" where
  "DLEQ_prove sha enc params g_1 g_2 h_1 h_2 x_i rng =
     (case params of (p, _, _) \<Rightarrow>
        let (w, rng') = random p rng;
            (a_1, a_2) = DLEQ_prover_calc_a g_1 g_2 w;
            c = hash sha enc p (Pt h_1) (Pt h_2) (Pt a_1) (Pt a_2);
            r = DLEQ_calc_r p w x_i c
        in ((c, r, a_1, a_2), rng'))"

text \<open>
  The batch proof is the dictionary with the keys \<^verbatim>\<open>c\<close>, \<^verbatim>\<open>r_list\<close>,
  \<^verbatim>\<open>a_1_list\<close> and \<^verbatim>\<open>a_2_list\<close>; the published part is the dictionary with the
  keys \<^verbatim>\<open>C_list\<close> and \<^verbatim>\<open>Y_list\<close>.
\<close>

record 'g batch_proof =
  proof_c :: int
  proof_r_list :: "int list"
  proof_a_1_list :: "'g list"
  proof_a_2_list :: "'g list"

record 'g pub_bundle =
  pub_C_list :: "'g list"
  pub_Y_list :: "'g list"

definition DLEQ_prove_list :: "(byte list \<Rightarrow> byte list) \<Rightarrow> ('g packed list \<Rightarrow> byte list) \<Rightarrow>
    int \<Rightarrow> 'g::ab_group_add \<Rightarrow> 'g list \<Rightarrow> 'g list \<Rightarrow> 'g list \<Rightarrow> int list \<Rightarrow> rng \<Rightarrow>
    error + ('g batch_proof \<times> rng)" where
  "DLEQ_prove_list sha enc p g C_list Y_list y_list shares_list rng =
     (let n = int (length Y_list) in
      case get_X_i_list C_list n of
        Inl e \<Rightarrow> Inl e
      | Inr X_list \<Rightarrow>
          if length X_list \<noteq> length y_list then Inl AssertionError
          else if length Y_list \<noteq> length y_list then Inl AssertionError
          else
            let n = length X_list;
                (w_list, rng') = randoms p n rng;
                a_1_list = map (\<lambda>i. smul (w_list ! i) g) [0..<n];
                a_2_list = map (\<lambda>i. smul (w_list ! i) (y_list ! i)) [0..<n];
                c = hash sha enc p (Pts X_list) (Pts Y_list) (Pts a_1_list) (Pts a_2_list);
                r_list = DLEQ_calc_all_r p shares_list w_list c
            in Inr (\<lparr>proof_c = c, proof_r_list = r_list,
                      proof_a_1_list = a_1_list, proof_a_2_list = a_2_list\<rparr>, rng'))"

definition DLEQ_verify :: "'g::ab_group_add \<Rightarrow> 'g \<Rightarrow> 'g \<Rightarrow> 'g \<Rightarrow> 'g single_proof \<Rightarrow> bool" where
  "DLEQ_verify g_1 g_2 h_1 h_2 prf =
     (case prf of (c, r, a_1, a_2) \<Rightarrow>
        let (a_1_new, a_2_new) = DLEQ_verifyer_calc_a r c g_1 h_1 g_2 h_2
        in if a_1 = a_1_new \<and> a_2 = a_2_new then True else False)"



definition DLEQ_verify_single :: "(byte list \<Rightarrow> byte list) \<Rightarrow> ('g packed list \<Rightarrow> byte list) \<Rightarrow>
    int \<Rightarrow> 'g::ab_group_add \<Rightarrow> 'g \<Rightarrow> 'g \<Rightarrow> 'g \<Rightarrow> 'g single_proof \<Rightarrow> bool" where
  "DLEQ_verify_single sha enc p g_1 g_2 h_1 h_2 prf =
     (case prf of (c_claimed, _, a_1, a_2) \<Rightarrow>
        let c = hash sha enc p (Pt h_1) (Pt h_2) (Pt a_1) (Pt a_2)
        in if c \<noteq> c_claimed then False
           else DLEQ_verify g_1 g_2 h_1 h_2 prf)"

section \<open>pvss.py: the dealer, the participants and the reconstruction\<close>

text \<open>
  \<^verbatim>\<open>gen_proof(params, k, n, secret, pub_keys)\<close>, with its two leading and five
  trailing assertions in the order of the source; \<^verbatim>\<open>shares_list[0]\<close> raises
  \<^verbatim>\<open>IndexError\<close> on an empty list.
\<close>

definition gen_proof :: "(byte list \<Rightarrow> byte list) \<Rightarrow> ('g packed list \<Rightarrow> byte list) \<Rightarrow>
    'g::ab_group_add params \<Rightarrow> int \<Rightarrow> int \<Rightarrow> int \<Rightarrow> 'g list \<Rightarrow> rng \<Rightarrow>
    error + (('g pub_bundle \<times> 'g batch_proof) \<times> rng)" where
  "gen_proof sha enc params k n secret pub_keys rng =
     (if \<not> n > k then Inl AssertionError
      else if int (length pub_keys) \<noteq> n then Inl AssertionError
      else (case params of (p, g0, h) \<Rightarrow>
        (case gen_polynomial k secret p rng of
          Inl e \<Rightarrow> Inl e
        | Inr (px, rng1) \<Rightarrow>
            (let commitments = get_commitments h px in
            (case calc_shares px k n p of
              Inl e \<Rightarrow> Inl e
            | Inr shares_list \<Rightarrow>
                (case get_encrypted_shares pub_keys shares_list of
                  Inl e \<Rightarrow> Inl e
                | Inr enc_shares \<Rightarrow>
                    (let pub = \<lparr>pub_C_list = commitments, pub_Y_list = enc_shares\<rparr> in
                    (case DLEQ_prove_list sha enc p h commitments enc_shares pub_keys
                           shares_list rng1 of
                      Inl e \<Rightarrow> Inl e
                    | Inr (prf, rng2) \<Rightarrow>
                        if int (length px) \<noteq> k then Inl AssertionError
                        else if int (length commitments) \<noteq> k then Inl AssertionError
                        else if int (length shares_list) \<noteq> n then Inl AssertionError
                        else (case shares_list of
                          [] \<Rightarrow> Inl IndexError
                        | s0 # _ \<Rightarrow>
                            if \<not> s0 \<noteq> secret then Inl AssertionError
                            else if int (length enc_shares) \<noteq> n then Inl AssertionError
                            else Inr ((pub, prf), rng2))))))))))"

text \<open>
  \<^verbatim>\<open>
  def __lagrange(i, index_list, p):
      top = Bn(1)
      bottom = Bn(1)
      for j in index_list:
          if j != i:
              top = (top * j)
              bottom = (bottom * (j-i))
      return top.mod_mul(bottom.mod_inverse(p), p)
  \<close>
\<close>

definition lagrange :: "int \<Rightarrow> int list \<Rightarrow> int \<Rightarrow> error + int" where
  "lagrange i index_list p =
     (let (top, bottom) =
            foldl (\<lambda>(top, bottom) j.
                     if j \<noteq> i then (top * j, bottom * (j - i)) else (top, bottom))
              (1, 1) index_list
      in case mod_inverse bottom p of
           Inl e \<Rightarrow> Inl e
         | Inr bottom_inv \<Rightarrow> Inr ((top * bottom_inv) mod p))"

text \<open>
  \<^verbatim>\<open>
  def decode(S_list, index_list, p):
      assert len(S_list) == len(index_list)
      ans = __lagrange(index_list[0], index_list, p) * S_list[0]
      for (S_i, i) in zip(S_list[1:], range(1, len(S_list))):
          ans = ans + __lagrange(index_list[i], index_list, p) * S_i
      return ans
  \<close>
\<close>

fun decode_loop :: "int list \<Rightarrow> int \<Rightarrow> 'g::ab_group_add \<Rightarrow> ('g \<times> nat) list \<Rightarrow> error + 'g" where
  "decode_loop index_list p ans [] = Inr ans"
| "decode_loop index_list p ans ((S_i, i) # rest) =
     (case lagrange (index_list ! i) index_list p of
        Inl e \<Rightarrow> Inl e
      | Inr l \<Rightarrow> decode_loop index_list p (ans + smul l S_i) rest)"

definition decode :: "'g::ab_group_add list \<Rightarrow> int list \<Rightarrow> int \<Rightarrow> error + 'g" where
  "decode S_list index_list p =
     (if length S_list \<noteq> length index_list then Inl AssertionError
      else case index_list of
        [] \<Rightarrow> Inl IndexError
      | i0 # _ \<Rightarrow>
          (case lagrange i0 index_list p of
             Inl e \<Rightarrow> Inl e
           | Inr l0 \<Rightarrow>
               decode_loop index_list p (smul l0 (S_list ! 0))
                 (zip (tl S_list) [1..<length S_list])))"

definition verify_correct_decryption ::
    "(byte list \<Rightarrow> byte list) \<Rightarrow> ('g packed list \<Rightarrow> byte list) \<Rightarrow>
     'g::ab_group_add \<Rightarrow> 'g \<Rightarrow> 'g single_proof \<Rightarrow> 'g \<Rightarrow> int \<Rightarrow> 'g \<Rightarrow> bool" where
  "verify_correct_decryption sha enc S_i Y_i decrypt_proof pub_key p G =
     DLEQ_verify_single sha enc p G S_i pub_key Y_i decrypt_proof"

text \<open>
  \<^verbatim>\<open>
  def batch_verify_correct_decryption(proved_decryptions, Y_list, pub_keys, p, G):
      for ((S_i, decrypt_proof), Y_i, pub_key) in zip(proved_decryptions, Y_list, pub_keys):
          if verify_correct_decryption(S_i, Y_i, decrypt_proof, pub_key, p, G) is False:
              return False
      return True
  \<close>
\<close>

fun batch_verify_loop :: "(byte list \<Rightarrow> byte list) \<Rightarrow> ('g packed list \<Rightarrow> byte list) \<Rightarrow>
    int \<Rightarrow> 'g::ab_group_add \<Rightarrow> (('g \<times> 'g single_proof) \<times> 'g \<times> 'g) list \<Rightarrow> bool" where
  "batch_verify_loop sha enc p G [] = True"
| "batch_verify_loop sha enc p G (((S_i, decrypt_proof), Y_i, pub_key) # rest) =
     (if verify_correct_decryption sha enc S_i Y_i decrypt_proof pub_key p G = False then False
      else batch_verify_loop sha enc p G rest)"

definition batch_verify_correct_decryption ::
    "(byte list \<Rightarrow> byte list) \<Rightarrow> ('g packed list \<Rightarrow> byte list) \<Rightarrow>
     ('g::ab_group_add \<times> 'g single_proof) list \<Rightarrow> 'g list \<Rightarrow> 'g list \<Rightarrow> int \<Rightarrow> 'g \<Rightarrow> bool" where
  "batch_verify_correct_decryption sha enc proved_decryptions Y_list pub_keys p G =
     batch_verify_loop sha enc p G (zip proved_decryptions (zip Y_list pub_keys))"

definition helper_generate_key_pair :: "'g::ab_group_add params \<Rightarrow> rng \<Rightarrow> (int \<times> 'g) \<times> rng" where
  "helper_generate_key_pair params rng =
     (case params of (p, g0, g1) \<Rightarrow>
        let (x_i, rng') = random p rng;
            y_i = smul x_i g0
        in ((x_i, y_i), rng'))"

definition participant_decrypt :: "'g::ab_group_add params \<Rightarrow> int \<Rightarrow> 'g \<Rightarrow> error + 'g" where
  "participant_decrypt params x_i Y_i =
     (case params of (p, _, _) \<Rightarrow>
        (case mod_inverse x_i p of
          Inl e \<Rightarrow> Inl e
        | Inr x_inv \<Rightarrow> Inr (smul x_inv Y_i)))"

definition participant_decrypt_and_prove ::
    "(byte list \<Rightarrow> byte list) \<Rightarrow> ('g packed list \<Rightarrow> byte list) \<Rightarrow>
     'g::ab_group_add params \<Rightarrow> int \<Rightarrow> 'g \<Rightarrow> rng \<Rightarrow> error + (('g \<times> 'g single_proof) \<times> rng)" where
  "participant_decrypt_and_prove sha enc params x_i Y_i rng =
     (case params of (p, g0, _) \<Rightarrow>
        (case participant_decrypt params x_i Y_i of
          Inl e \<Rightarrow> Inl e
        | Inr S_i \<Rightarrow>
            let y_i = smul x_i g0;
                (decrypt_proof, rng') = DLEQ_prove sha enc params g0 S_i y_i Y_i x_i rng
            in Inr ((S_i, decrypt_proof), rng')))"

definition get_pub_key :: "'g::ab_group_add params \<Rightarrow> int \<Rightarrow> 'g" where
  "get_pub_key params x_i = (case params of (_, g0, G) \<Rightarrow> smul x_i g0)"

section \<open>Auxiliary definitions\<close>

text \<open>
  The value of the polynomial with coefficients \<open>px\<close> at \<open>x\<close>, as an integer, with
  the exponents counted from \<open>m\<close>: what the loop of \<^verbatim>\<open>__calc_share\<close> computes before
  its reductions.
\<close>

definition poly_sum :: "int list \<Rightarrow> int \<Rightarrow> nat \<Rightarrow> int" where
  "poly_sum px x m = sum_list (map (\<lambda>(alpha, j). alpha * x ^ j) (zip px [m..<m + length px]))"

text \<open>
  For the examples: the 32 bytes of the SHA-256 digest of the byte string
  \<^verbatim>\<open>This is a test\<close>, and
  a digest of 31 zero bytes and a last byte 3, whose integer is small.
\<close>

definition example_digest :: "byte list" where
  "example_digest =
     [0xc7, 0xbe, 0x1e, 0xd9, 0x02, 0xfb, 0x8d, 0xd4, 0xd4, 0x89, 0x97, 0xc6, 0x45, 0x2f, 0x5d, 0x7e,
      0x50, 0x9f, 0xbc, 0xdb, 0xe2, 0x80, 0x8b, 0x16, 0xbc, 0xf4, 0xed, 0xce, 0x4c, 0x07, 0xd1, 0x4e]"

definition small_digest :: "byte list" where
  "small_digest = replicate 31 0 @ [3]"

text \<open>
  The Lagrange coefficient in the words of the specification: the product, over the
  \<open>j\<close> of the index list other than \<open>i\<close>, of \<open>j\<close> times the inverse of \<open>j - i\<close>,
  modulo \<open>p\<close>; it fails when a term has no inverse.
\<close>

fun lagrange_coefficient_spec :: "int \<Rightarrow> int list \<Rightarrow> int \<Rightarrow> error + int" where
  "lagrange_coefficient_spec i [] p = Inr (1 mod p)"
| "lagrange_coefficient_spec i (j # js) p =
     (if j = i then lagrange_coefficient_spec i js p
      else (case mod_inverse (j - i) p of
              Inl e \<Rightarrow> Inl e
            | Inr d \<Rightarrow>
                (case lagrange_coefficient_spec i js p of
                   Inl e \<Rightarrow> Inl e
                 | Inr L \<Rightarrow> Inr ((j * d * L) mod p))))"

text \<open>
  The two products that the loop of \<^verbatim>\<open>__lagrange\<close> accumulates, over the list and
  over the set of its entries.
\<close>

definition top_of :: "int \<Rightarrow> int list \<Rightarrow> int" where
  "top_of i xs = prod_list (filter (\<lambda>j. j \<noteq> i) xs)"

definition bottom_of :: "int \<Rightarrow> int list \<Rightarrow> int" where
  "bottom_of i xs = prod_list (map (\<lambda>j. j - i) (filter (\<lambda>j. j \<noteq> i) xs))"

definition top_set :: "int set \<Rightarrow> int \<Rightarrow> int" where
  "top_set S i = (\<Prod>j\<in>S - {i}. j)"

definition bot_set :: "int set \<Rightarrow> int \<Rightarrow> int" where
  "bot_set S i = (\<Prod>j\<in>S - {i}. (j - i))"

text \<open>
  The value at 0 of the Lagrange basis polynomial of the node \<open>i\<close> among the nodes
  \<open>S\<close>, as a rational number.
\<close>

definition lagrange_basis_0 :: "int set \<Rightarrow> int \<Rightarrow> rat" where
  "lagrange_basis_0 S i = (\<Prod>j\<in>S - {i}. of_int j / (of_int j - of_int i))"

section \<open>Scalar multiplication of points\<close>

lemma nat_smul_add: "nat_smul (m + n) g = nat_smul m g + nat_smul n g"
  by (induction m) (simp_all add: add.assoc)

lemma nat_smul_uminus: "nat_smul n (- g) = - nat_smul n g"
  by (induction n) simp_all

lemma nat_smul_plus: "nat_smul n (g + h) = nat_smul n g + nat_smul n h"
  by (induction n) (simp_all add: algebra_simps)

lemma nat_smul_zero: "nat_smul n (0::'g::ab_group_add) = 0"
  by (induction n) simp_all

lemma nat_smul_mult: "nat_smul (m * n) g = nat_smul m (nat_smul n g)"
  by (induction m) (simp_all add: nat_smul_add)

lemma smul_of_nat: "smul (int n) g = nat_smul n g"
  by (simp add: smul_def)

lemma smul_uminus_left: "smul (- k) g = - smul k g"
  by (cases "k = 0") (auto simp: smul_def)

lemma smul_0 [simp]: "smul 0 g = 0"
  by (simp add: smul_def)

lemma smul_1 [simp]: "smul 1 g = g"
  by (simp add: smul_def)

lemma smul_zero_right [simp]: "smul k (0::'g::ab_group_add) = 0"
  by (simp add: smul_def nat_smul_zero)

lemma smul_Suc: "smul (k + 1) g = smul k g + g"
proof (cases "0 \<le> k")
  case True
  then have "nat (k + 1) = Suc (nat k)" by simp
  with True show ?thesis by (simp add: smul_def add.commute)
next
  case False
  then have "nat (- k) = Suc (nat (- (k + 1)))" by simp
  with False show ?thesis by (auto simp: smul_def)
qed

lemma smul_pred: "smul (k - 1) g = smul k g - g"
  using smul_Suc [of "k - 1" g] by simp

lemma smul_add: "smul (a + b) g = smul a g + smul b g"
proof (induction b rule: int_induct [where k = 0])
  case base
  show ?case by simp
next
  case (step1 i)
  have "smul (a + (i + 1)) g = smul (a + i) g + g"
    using smul_Suc [of "a + i" g] by (simp add: add.assoc)
  then show ?case using step1 by (simp add: smul_Suc add.assoc)
next
  case (step2 i)
  have "smul (a + (i - 1)) g = smul (a + i) g - g"
    using smul_pred [of "a + i" g] by (simp add: algebra_simps)
  then show ?case using step2 by (simp add: smul_pred algebra_simps)
qed

lemma smul_diff: "smul (a - b) g = smul a g - smul b g"
  using smul_add [of a "- b" g] by (simp add: smul_uminus_left)

lemma smul_plus_right: "smul k (g + h) = smul k g + smul k h"
  by (simp add: smul_def nat_smul_plus)

lemma smul_uminus_right: "smul k (- g) = - smul k g"
  by (simp add: smul_def nat_smul_uminus)

lemma smul_mult: "smul (a * b) g = smul a (smul b g)"
proof (induction a rule: int_induct [where k = 0])
  case base
  show ?case by simp
next
  case (step1 i)
  then show ?case by (simp add: distrib_right smul_add smul_Suc)
next
  case (step2 i)
  then show ?case by (simp add: left_diff_distrib smul_diff smul_pred)
qed

lemma smul_mod: "smul p g = 0 \<Longrightarrow> smul (a mod p) g = smul a g"
proof -
  assume p: "smul p g = 0"
  have "a mod p = a - (a div p) * p" by (simp add: minus_div_mult_eq_mod)
  then have "smul (a mod p) g = smul a g - smul (a div p) (smul p g)"
    by (simp add: smul_diff smul_mult)
  with p show ?thesis by simp
qed

lemma smul_ring: "smul k (g::'a::ring_1) = of_int k * g"
proof (induction k rule: int_induct [where k = 0])
  case base show ?case by simp
next
  case (step1 i)
  have "smul (i + 1) g = smul i g + g" by (rule smul_Suc)
  also have "\<dots> = of_int (i + 1) * g" using step1 by (simp add: distrib_right)
  finally show ?case .
next
  case (step2 i)
  have "smul (i - 1) g = smul i g - g" by (rule smul_pred)
  also have "\<dots> = of_int (i - 1) * g" using step2 by (simp add: left_diff_distrib)
  finally show ?case .
qed

lemma order_7: "smul 7 (g::7) = 0"
proof -
  have z: "(7::7) = 0" by simp
  have "smul 7 g = 7 * g" by (simp add: smul_ring)
  also have "\<dots> = 0" by (subst z) simp
  finally show ?thesis .
qed

lemma order_3: "smul 3 (g::3) = 0"
proof -
  have z: "(3::3) = 0" by simp
  have "smul 3 g = 3 * g" by (simp add: smul_ring)
  also have "\<dots> = 0" by (subst z) simp
  finally show ?thesis .
qed


section \<open>The challenge hash\<close>

lemma from_binary_foldl_bounds:
  "0 \<le> acc \<Longrightarrow> acc < 2 ^ k \<Longrightarrow>
   0 \<le> foldl (\<lambda>acc b. acc * 256 + uint (b::byte)) acc bs \<and>
   foldl (\<lambda>acc b. acc * 256 + uint b) acc bs < 2 ^ (k + 8 * length bs)"
proof (induction bs arbitrary: acc k)
  case Nil
  then show ?case by simp
next
  case (Cons b bs)
  have b0: "0 \<le> uint b" by simp
  have b1: "uint b < 256" using uint_bounded [of b] by simp
  have lo: "0 \<le> acc * 256 + uint b" using Cons.prems(1) b0 by simp
  have "acc + 1 \<le> 2 ^ k" using Cons.prems(2) by simp
  then have "(acc + 1) * 256 \<le> 2 ^ k * 256" by (rule mult_right_mono) simp
  then have hi: "acc * 256 + uint b < 2 ^ (k + 8)"
    using b1 by (simp add: power_add algebra_simps)
  from Cons.IH [OF lo hi] show ?case by (simp add: algebra_simps)
qed

lemma from_binary_bounds: "0 \<le> from_binary bs \<and> from_binary bs < 2 ^ (8 * length bs)"
  using from_binary_foldl_bounds [of 0 0 bs] by (simp add: from_binary_def)

text \<open>
  C10: the challenge does not depend on the group order it is given: the
  parameter \<open>p\<close> of \<^verbatim>\<open>hash\<close> is never read.
\<close>

theorem hash_independent_of_order:
  "hash sha enc p1 h_1 h_2 a_1 a_2 = hash sha enc p2 h_1 h_2 a_1 a_2"
  by (simp add: hash_def)

text \<open>
  C5 (as the code has it): the challenge is the big-endian integer of the digest. It
  is not reduced modulo the group order: for a 32-byte digest it lies in
  \<open>[0, 2^256)\<close>, whatever \<open>p\<close> is.
\<close>

theorem hash_range:
  "length (sha (enc [h_1, h_2, a_1, a_2])) = 32 \<Longrightarrow>
   0 \<le> hash sha enc p h_1 h_2 a_1 a_2 \<and> hash sha enc p h_1 h_2 a_1 a_2 < 2 ^ 256"
  using from_binary_bounds [of "sha (enc [h_1, h_2, a_1, a_2])"] by (simp add: hash_def)

theorem hash_range_witness:
  "0 \<le> hash (\<lambda>_. example_digest) (\<lambda>_. []) 7 (Pt (1::7)) (Pt 2) (Pt 3) (Pt 4) \<and>
   hash (\<lambda>_. example_digest) (\<lambda>_. []) 7 (Pt (1::7)) (Pt 2) (Pt 3) (Pt 4) < 2 ^ 256"
  using hash_range [of "\<lambda>_. example_digest" "\<lambda>_. []" "Pt (1::7)" "Pt 2" "Pt 3" "Pt 4" 7]
  by (simp add: example_digest_def)

text \<open>
  C5 as stated fails: with \<open>p = 7\<close> and the example digest the challenge
  is far above \<open>p\<close>.
\<close>

theorem hash_not_reduced_counterexample:
  "\<not> (0 \<le> hash (\<lambda>_. example_digest) (\<lambda>_. []) 7 (Pt (1::7)) (Pt 2) (Pt 3) (Pt 4) \<and>
      hash (\<lambda>_. example_digest) (\<lambda>_. []) 7 (Pt (1::7)) (Pt 2) (Pt 3) (Pt 4) < 7)"
  by (simp add: hash_def from_binary_def example_digest_def)

section \<open>Polynomial generation\<close>

text \<open>
  C6 (as the code has it): \<^verbatim>\<open>gen_polynomial\<close> never raises. It returns the secret
  followed by the next \<open>k - 1\<close> draws, a list of length \<open>k\<close> when \<open>k \<ge> 1\<close>; when
  \<open>k < 1\<close> the range is empty and it returns the one-coefficient polynomial
  \<open>[secret]\<close> without drawing.
\<close>

theorem gen_polynomial_result:
  "gen_polynomial k secret p rng =
     Inr (secret # stake (nat (k - 1)) rng, sdrop (nat (k - 1)) rng) \<and>
   (1 \<le> k \<longrightarrow> int (length (secret # stake (nat (k - 1)) rng)) = k) \<and>
   (k < 1 \<longrightarrow> gen_polynomial k secret p rng = Inr ([secret], rng))"
  by (simp add: gen_polynomial_def randoms_def)

theorem gen_polynomial_result_witness:
  "(1::int) \<le> 3 \<and> gen_polynomial 3 5 7 (sconst 2) = Inr ([5, 2, 2], sconst 2) \<and>
   (0::int) < 1 \<and> gen_polynomial 0 5 7 (sconst 2) = Inr ([5], sconst 2)"
  using gen_polynomial_result [of 3 5 7 "sconst 2"] gen_polynomial_result [of 0 5 7 "sconst 2"]
  by (simp add: eval_nat_numeral)

text \<open>
  C6 as stated fails: with threshold 0 the call returns a polynomial and no error.
\<close>

theorem gen_polynomial_no_error_counterexample:
  "(0::int) < 1 \<and> gen_polynomial 0 5 7 (sconst 2) = Inr ([5], sconst 2) \<and>
   gen_polynomial 0 5 7 (sconst 2) \<noteq> Inl AssertionError"
  by (simp add: gen_polynomial_def randoms_def)

section \<open>The commitments evaluate to the commitment of the share\<close>

lemma upt_shift: "[m..<Suc (m + n)] = m # [Suc m..<Suc (m + n)]"
  by (simp add: upt_conv_Cons del: upt_Suc)

lemma upt_shift_0: "[0..<Suc n] = 0 # [Suc 0..<Suc n]"
  by (simp add: upt_conv_Cons del: upt_Suc)

lemma poly_sum_Nil [simp]: "poly_sum [] x m = 0"
  by (simp add: poly_sum_def)

lemma poly_sum_Cons [simp]: "poly_sum (a # px) x m = a * x ^ m + poly_sum px x (Suc m)"
  by (simp add: poly_sum_def upt_shift del: upt_Suc)

lemma calc_share_foldl:
  "smul p H = 0 \<Longrightarrow>
   smul (foldl (\<lambda>result (alpha, j). (result + alpha * (x ^ j)) mod p) acc
           (zip px [m..<m + length px])) H =
   smul (acc + poly_sum px x m) H"
proof (induction px arbitrary: acc m)
  case Nil
  then show ?case by simp
next
  case (Cons a px)
  have "smul (foldl (\<lambda>result (alpha, j). (result + alpha * (x ^ j)) mod p) acc
           (zip (a # px) [m..<m + length (a # px)])) H =
        smul (foldl (\<lambda>result (alpha, j). (result + alpha * (x ^ j)) mod p)
           ((acc + a * x ^ m) mod p) (zip px [Suc m..<Suc m + length px])) H"
    by (simp add: upt_shift del: upt_Suc)
  also have "\<dots> = smul ((acc + a * x ^ m) mod p + poly_sum px x (Suc m)) H"
    by (rule Cons.IH [OF Cons.prems])
  also have "\<dots> = smul (acc + poly_sum (a # px) x m) H"
    using Cons.prems by (simp add: smul_add smul_mod)
  finally show ?case .
qed

lemma calc_share_value:
  "int (length px) = k \<Longrightarrow> smul p H = 0 \<Longrightarrow>
   \<exists>s. calc_share px k x p = Inr s \<and> smul s H = smul (poly_sum px x 0) H"
  using calc_share_foldl [of p H x 0 px 0] by (auto simp: calc_share_def)

lemma foldl_plus_sum_list:
  "foldl (\<lambda>ans e. ans + e) (e0::'g::ab_group_add) es = e0 + sum_list es"
  by (induction es arbitrary: e0) (simp_all add: add.assoc)

lemma commitments_sum:
  "sum_list (map (\<lambda>(C_j, j). smul (x ^ j) C_j)
      (zip (map (\<lambda>p_i. smul p_i H) px) [m..<m + length px])) =
   smul (poly_sum px x m) H"
proof (induction px arbitrary: m)
  case Nil
  then show ?case by simp
next
  case (Cons a px)
  have "smul (x ^ m) (smul a H) = smul (a * x ^ m) H"
    by (simp add: smul_mult [symmetric] mult.commute)
  then show ?case using Cons.IH [of "Suc m"]
    by (simp add: upt_shift smul_add del: upt_Suc)
qed

lemma get_X_i_commitments:
  "px \<noteq> [] \<Longrightarrow> get_X_i (get_commitments H px) x = Inr (smul (poly_sum px x 0) H)"
proof -
  assume ne: "px \<noteq> []"
  then obtain a px' where px: "px = a # px'" by (cases px) auto
  have "get_X_i (get_commitments H px) x =
        Inr (sum_list (map (\<lambda>(C_j, j). smul (x ^ j) C_j)
               (zip (map (\<lambda>p_i. smul p_i H) px) [0..<0 + length px])))"
    by (simp add: get_X_i_def get_commitments_def px upt_shift_0 foldl_plus_sum_list del: upt_Suc)
  then show ?thesis by (simp only: commitments_sum)
qed

text \<open>
  C2: for a polynomial \<open>px\<close> of length \<open>k \<ge> 1\<close> and a point \<open>H\<close> of a group of
  order \<open>p\<close>, \<^verbatim>\<open>__calc_share\<close> returns a share \<open>s\<close> and \<^verbatim>\<open>__get_X_i\<close>, applied
  to the commitments of \<open>px\<close> at the same index, returns \<open>s * H\<close>. This holds at
  every index \<open>i\<close>, in particular for \<open>i\<close> in \<open>[1, n]\<close>.
\<close>

theorem commitment_homomorphism:
  "int (length px) = k \<Longrightarrow> 1 \<le> k \<Longrightarrow> 0 < p \<Longrightarrow> smul p H = 0 \<Longrightarrow>
   \<exists>s. calc_share px k i p = Inr s \<and> get_X_i (get_commitments H px) i = Inr (smul s H)"
proof -
  assume len: "int (length px) = k" and k: "1 \<le> k" and "0 < p" and ord: "smul p H = 0"
  from len k have ne: "px \<noteq> []" by auto
  from calc_share_value [OF len ord] obtain s where
    s: "calc_share px k i p = Inr s" "smul s H = smul (poly_sum px i 0) H" by blast
  with get_X_i_commitments [OF ne, of H i] show ?thesis by simp
qed

theorem commitment_homomorphism_witness:
  "int (length [5, 2, 3 :: int]) = 3 \<and> (1::int) \<le> 3 \<and> (0::int) < 7 \<and> smul 7 (3::7) = 0 \<and>
   calc_share [5, 2, 3] 3 2 7 = Inr 0 \<and>
   get_X_i (get_commitments (3::7) [5, 2, 3]) 2 = Inr (smul 0 3)"
proof -
  have cs: "calc_share [5, 2, 3] 3 2 7 = Inr 0" by code_simp
  from commitment_homomorphism [of "[5, 2, 3]" 3 7 "3::7" 2] order_7 [of 3] cs
  show ?thesis by simp
qed

section \<open>Honest proofs of discrete-log equality verify\<close>

lemma mod_inverse_Inr:
  "mod_inverse b p = Inr y \<Longrightarrow> 0 \<le> y \<and> y < p \<and> (b * y) mod p = 1"
  by (auto simp: mod_inverse_def find_Some_iff split: option.splits)

lemma mod_inverse_Inl:
  "mod_inverse b p = Inl e \<Longrightarrow> e = NoInverse \<and> (\<forall>y. 0 \<le> y \<and> y < p \<longrightarrow> (b * y) mod p \<noteq> 1)"
  by (auto simp: mod_inverse_def find_None_iff split: option.splits)

lemma mod_inverse_exists:
  assumes "0 < p" and "(b * y) mod p = 1"
  shows "\<exists>z. mod_inverse b p = Inr z"
proof (cases "mod_inverse b p")
  case (Inl e)
  have "0 \<le> y mod p" "y mod p < p" using assms(1) by simp_all
  moreover have "(b * (y mod p)) mod p = 1" using assms(2) by (simp add: mod_mult_right_eq)
  ultimately show ?thesis using mod_inverse_Inl [OF Inl] by blast
next
  case (Inr z)
  then show ?thesis by blast
qed

lemma smul_calc_r:
  "smul p g = 0 \<Longrightarrow> smul (DLEQ_calc_r p w x c) g + smul c (smul x g) = smul w g"
  by (simp add: DLEQ_calc_r_def smul_mod smul_diff smul_mult)

lemma DLEQ_verify_honest:
  "smul p g_1 = 0 \<Longrightarrow> smul p g_2 = 0 \<Longrightarrow>
   DLEQ_verify g_1 g_2 (smul x g_1) (smul x g_2) (c, DLEQ_calc_r p w x c, smul w g_1, smul w g_2)"
  by (simp add: DLEQ_verify_def DLEQ_verifyer_calc_a_def smul_calc_r)

lemma smul_inverse_cancel:
  assumes "smul p Y = 0" and "(x * z) mod p = 1"
  shows "smul x (smul z Y) = Y"
proof -
  have "smul x (smul z Y) = smul (x * z) Y" by (simp add: smul_mult)
  also have "\<dots> = smul ((x * z) mod p) Y" using assms(1) by (simp add: smul_mod)
  also have "\<dots> = Y" using assms(2) by simp
  finally show ?thesis .
qed

lemma smul_order_smul: "smul p Y = 0 \<Longrightarrow> smul p (smul z Y) = 0"
proof -
  assume a: "smul p Y = 0"
  have "smul p (smul z Y) = smul z (smul p Y)"
    by (simp add: smul_mult [symmetric] mult.commute)
  with a show ?thesis by simp
qed

lemma from_binary_small_digest: "from_binary small_digest = 3"
  by code_simp

lemma hash_small_digest: "hash (\<lambda>_. small_digest) enc p h_1 h_2 a_1 a_2 = 3"
  by (simp add: hash_def from_binary_small_digest)

text \<open>
  C4: in a group of order \<open>p\<close>, for a private key \<open>x_i\<close> that has an inverse modulo
  \<open>p\<close> and any encrypted share \<open>Y_i\<close>, \<^verbatim>\<open>participant_decrypt_and_prove\<close> returns a
  pair \<open>(S_i, proof)\<close>, whatever the sampler draws, and
  \<^verbatim>\<open>verify_correct_decryption\<close> accepts it against the public key \<open>x_i * G\<close>.
\<close>

theorem decryption_completeness:
  assumes "0 < p" and "smul p G = 0" and "smul p Y_i = 0" and "\<exists>y. (x_i * y) mod p = 1"
  shows "\<exists>S_i prf rng'.
           participant_decrypt_and_prove sha enc (p, G, h) x_i Y_i rng = Inr ((S_i, prf), rng') \<and>
           verify_correct_decryption sha enc S_i Y_i prf (smul x_i G) p G = True"
proof -
  from assms(4) obtain y where "(x_i * y) mod p = 1" by blast
  from mod_inverse_exists [OF assms(1) this] obtain z where z: "mod_inverse x_i p = Inr z" by blast
  from mod_inverse_Inr [OF z] have inv: "(x_i * z) mod p = 1" by simp
  define S where "S = smul z Y_i"
  have Y: "Y_i = smul x_i S" using smul_inverse_cancel [OF assms(3) inv] by (simp add: S_def)
  have ordS: "smul p S = 0" unfolding S_def by (rule smul_order_smul [OF assms(3)])
  define w where "w = shd rng"
  define c where "c = hash sha enc p (Pt (smul x_i G)) (Pt Y_i) (Pt (smul w G)) (Pt (smul w S))"
  have run: "participant_decrypt_and_prove sha enc (p, G, h) x_i Y_i rng =
        Inr ((S, (c, DLEQ_calc_r p w x_i c, smul w G, smul w S)), stl rng)"
    by (simp add: participant_decrypt_and_prove_def participant_decrypt_def z DLEQ_prove_def
        random_def DLEQ_prover_calc_a_def S_def w_def c_def Let_def)
  have "DLEQ_verify G S (smul x_i G) (smul x_i S) (c, DLEQ_calc_r p w x_i c, smul w G, smul w S)"
    by (rule DLEQ_verify_honest [OF assms(2) ordS])
  then have "verify_correct_decryption sha enc S Y_i (c, DLEQ_calc_r p w x_i c, smul w G, smul w S)
               (smul x_i G) p G = True"
    by (simp add: verify_correct_decryption_def DLEQ_verify_single_def c_def Y [symmetric])
  with run show ?thesis by blast
qed

theorem decryption_completeness_witness:
  "(0::int) < 7 \<and> smul 7 (1::7) = 0 \<and> smul 7 (6::7) = 0 \<and> (3 * 5) mod (7::int) = 1 \<and>
   (\<exists>S_i prf rng'.
      participant_decrypt_and_prove (\<lambda>_. small_digest) (\<lambda>_. []) (7, 1::7, 3) 3 6 (sconst 4) =
        Inr ((S_i, prf), rng') \<and>
      verify_correct_decryption (\<lambda>_. small_digest) (\<lambda>_. []) S_i 6 prf (smul 3 1) 7 1 = True)"
proof -
  have inv: "\<exists>y. (3 * y) mod (7::int) = 1" by (rule exI [of _ 5]) simp
  from decryption_completeness [of 7 "1::7" 6 3 "\<lambda>_. small_digest" "\<lambda>_. []" 3 "sconst 4",
      OF _ order_7 order_7 inv]
  show ?thesis by (simp add: order_7)
qed

section \<open>Batch verification of decryptions\<close>

lemma batch_verify_loop_all:
  "batch_verify_loop sha enc p G es =
     (\<forall>e \<in> set es. case e of ((S_i, prf), Y_i, pk) \<Rightarrow>
        verify_correct_decryption sha enc S_i Y_i prf pk p G)"
  by (induction es) (auto split: if_splits)

text \<open>
  C9: \<^verbatim>\<open>batch_verify_correct_decryption\<close> returns \<open>True\<close> exactly when every
  zipped entry passes \<^verbatim>\<open>verify_correct_decryption\<close>; one failing entry makes the
  whole call return \<open>False\<close>.
\<close>

theorem batch_verify_fails_closed:
  "batch_verify_correct_decryption sha enc proved_decryptions Y_list pub_keys p G =
     (\<forall>e \<in> set (zip proved_decryptions (zip Y_list pub_keys)).
        case e of ((S_i, prf), Y_i, pk) \<Rightarrow>
          verify_correct_decryption sha enc S_i Y_i prf pk p G)"
  by (simp add: batch_verify_correct_decryption_def batch_verify_loop_all)

theorem batch_verify_fails_closed_witness:
  "batch_verify_correct_decryption (\<lambda>_. small_digest) (\<lambda>_. [])
     [(2, (3, 2, 4, 1)), (3, (3, 2, 4, 1))] [6, 6] [3, 3] 7 (1::7) = False \<and>
   batch_verify_correct_decryption (\<lambda>_. small_digest) (\<lambda>_. [])
     [(2, (3, 2, 4, 1))] [6] [3] 7 (1::7) = True"
  using batch_verify_fails_closed [of "\<lambda>_. small_digest" "\<lambda>_. []"
      "[(2, (3, 2, 4, 1)), (3, (3, 2, 4, 1))]" "[6, 6]" "[3, 3]" 7 "1::7"]
    batch_verify_fails_closed [of "\<lambda>_. small_digest" "\<lambda>_. []"
      "[(2, (3, 2, 4, 1))]" "[6]" "[3]" 7 "1::7"]
  by (simp add: verify_correct_decryption_def DLEQ_verify_single_def DLEQ_verify_def
      DLEQ_verifyer_calc_a_def hash_small_digest smul_ring)

section \<open>The dealer's bundle\<close>

lemma sequence_Inr_nth:
  "sequence rs = Inr ys \<Longrightarrow> length ys = length rs \<and> (\<forall>i < length rs. rs ! i = Inr (ys ! i))"
proof (induction rs arbitrary: ys rule: sequence.induct)
  case 1
  then show ?case by simp
next
  case (2 e rs)
  then show ?case by simp
next
  case (3 x rs)
  from "3.prems" obtain xs where xs: "sequence rs = Inr xs" "ys = x # xs"
    by (auto split: sum.splits)
  from "3.IH" [OF xs(1)] xs(2) show ?case by (auto simp: nth_Cons split: nat.splits)
qed

lemma sequence_succeeds:
  "(\<forall>r \<in> set rs. \<exists>y. r = Inr y) \<Longrightarrow> \<exists>ys. sequence rs = Inr ys"
proof (induction rs rule: sequence.induct)
  case 1
  then show ?case by simp
next
  case (2 e rs)
  then show ?case by simp
next
  case (3 x rs)
  then show ?case by auto
qed

lemma nth_upto_from_1: "i < nat n \<Longrightarrow> [1..n] ! i = 1 + int i"
  by (simp add: nth_upto)

lemma length_upto_from_1: "length [1..n] = nat n"
  by simp

lemma calc_shares_nth:
  assumes "calc_shares px k n p = Inr shares"
  shows "length shares = nat n \<and> (\<forall>i < nat n. calc_share px k (1 + int i) p = Inr (shares ! i))"
proof -
  from sequence_Inr_nth [OF assms [unfolded calc_shares_def]]
  show ?thesis by (simp add: nth_upto_from_1)
qed

lemma get_X_i_list_nth:
  assumes "get_X_i_list C n = Inr Xs"
  shows "length Xs = nat n \<and> (\<forall>i < nat n. get_X_i C (1 + int i) = Inr (Xs ! i))"
proof -
  from sequence_Inr_nth [OF assms [unfolded get_X_i_list_def]]
  show ?thesis by (simp add: nth_upto_from_1)
qed

lemma calc_shares_succeeds:
  "int (length px) = k \<Longrightarrow> \<exists>shares. calc_shares px k n p = Inr shares"
  unfolding calc_shares_def by (rule sequence_succeeds) (auto simp: calc_share_def)

lemma get_X_i_list_succeeds:
  "px \<noteq> [] \<Longrightarrow> \<exists>Xs. get_X_i_list (get_commitments h px) n = Inr Xs"
  unfolding get_X_i_list_def by (rule sequence_succeeds) (auto simp: get_X_i_commitments)






lemma gen_proof_succeeds:
  assumes k1: "1 \<le> k" and kn: "k < n" and len: "int (length pub_keys) = n"
    and first: "calc_share (secret # stake (nat (k - 1)) rng) k 1 p \<noteq> Inr secret"
  shows "\<exists>pub prf rng'. gen_proof sha enc (p, g0, h) k n secret pub_keys rng = Inr ((pub, prf), rng')"
proof -
  define px where "px = secret # stake (nat (k - 1)) rng"
  have lpx: "int (length px) = k" using k1 by (simp add: px_def)
  have ne: "px \<noteq> []" by (simp add: px_def)
  from calc_shares_succeeds [OF lpx] obtain shares where
    sh: "calc_shares px k n p = Inr shares" by blast
  from calc_shares_nth [OF sh] have lsh: "length shares = nat n"
    and all: "\<forall>i < nat n. calc_share px k (1 + int i) p = Inr (shares ! i)"
    by simp_all
  have "0 < nat n" using k1 kn by simp
  with all have "calc_share px k (1 + int 0) p = Inr (shares ! 0)" by blast
  then have sh0: "calc_share px k 1 p = Inr (shares ! 0)" by simp
  have lsh': "length shares = length pub_keys" using lsh len by auto
  from lsh k1 kn obtain s0 rest where sc: "shares = s0 # rest" by (cases shares) auto
  have s0: "s0 \<noteq> secret" using sh0 first by (auto simp: sc px_def)
  define Ys where "Ys = map (\<lambda>(y_i, i). smul (shares ! i) y_i) (zip pub_keys [0..<length pub_keys])"
  have Ys: "get_encrypted_shares pub_keys shares = Inr Ys"
    by (simp add: get_encrypted_shares_def lsh' Ys_def)
  have lYs: "length Ys = length pub_keys" by (simp add: Ys_def)
  from get_X_i_list_succeeds [OF ne, of h "int (length pub_keys)"] obtain Xs where
    Xs: "get_X_i_list (get_commitments h px) (int (length pub_keys)) = Inr Xs" by blast
  from get_X_i_list_nth [OF Xs] have lXs: "length Xs = length pub_keys" by simp
  have "\<exists>pr rng2.
    DLEQ_prove_list sha enc p h (get_commitments h px) Ys pub_keys shares (sdrop (nat (k - 1)) rng)
       = Inr (pr, rng2)"
    by (simp add: DLEQ_prove_list_def lYs Xs lXs randoms_def Let_def)
  then obtain pr rng2 where pl:
    "DLEQ_prove_list sha enc p h (get_commitments h px) Ys pub_keys shares (sdrop (nat (k - 1)) rng)
       = Inr (pr, rng2)" by blast
  have "gen_proof sha enc (p, g0, h) k n secret pub_keys rng =
          Inr ((\<lparr>pub_C_list = get_commitments h px, pub_Y_list = Ys\<rparr>, pr), rng2)"
    using kn len lpx sh Ys pl s0 lsh lYs
    by (simp add: gen_proof_def gen_polynomial_def randoms_def Let_def px_def [symmetric]
        get_commitments_def sc)
  then show ?thesis by blast
qed

lemma example_first_share:
  "calc_share (5 # stake (nat (3 - 1)) (sconst 2)) 3 1 7 \<noteq> Inr 5"
proof -
  have st: "stake (nat (3 - 1)) (sconst (2::int)) = [2, 2]" by (simp add: eval_nat_numeral)
  have "calc_share [5, 2, 2] 3 1 7 = Inr 2" by code_simp
  then show ?thesis unfolding st by simp
qed








text \<open>
  C7: \<^verbatim>\<open>gen_proof\<close> raises at its first assertion whenever \<open>n \<le> k\<close>, the case
  \<open>n = k\<close> included, and returns a bundle only when \<open>n > k\<close> and
  \<open>len(pub_keys) = n\<close>. The violation that the specification calls
  \<open>InvalidParameters\<close> is Python's \<^verbatim>\<open>AssertionError\<close>.
\<close>

theorem gen_proof_threshold_precondition:
  "(n \<le> k \<longrightarrow> gen_proof sha enc params k n secret pub_keys rng = Inl AssertionError) \<and>
   (\<forall>res. gen_proof sha enc params k n secret pub_keys rng = Inr res \<longrightarrow>
      k < n \<and> int (length pub_keys) = n)"
  by (auto simp: gen_proof_def split: if_splits)

theorem gen_proof_threshold_precondition_witness:
  "(3::int) \<le> 3 \<and>
   gen_proof (\<lambda>_. small_digest) (\<lambda>_. []) (7, 1::7, 3) 3 3 5 [2, 3, 4] (sconst 2) =
     Inl AssertionError \<and>
   (\<exists>res. gen_proof (\<lambda>_. small_digest) (\<lambda>_. []) (7, 1::7, 3) 3 4 5 [2, 3, 4, 5] (sconst 2) =
     Inr res) \<and>
   (3::int) < 4 \<and> int (length [2, 3, 4, 5::7]) = 4"
proof -
  from gen_proof_succeeds [of 3 4 "[2, 3, 4, 5::7]" 5 "sconst 2" 7 "\<lambda>_. small_digest" "\<lambda>_. []" 1 3,
      OF _ _ _ example_first_share]
  have run: "\<exists>res. gen_proof (\<lambda>_. small_digest) (\<lambda>_. []) (7, 1::7, 3) 3 4 5 [2, 3, 4, 5] (sconst 2) =
     Inr res" by auto
  from gen_proof_threshold_precondition
    [of 3 3 "\<lambda>_. small_digest" "\<lambda>_. []" "(7, 1::7, 3)" 5 "[2, 3, 4]" "sconst 2"]
  have fail: "gen_proof (\<lambda>_. small_digest) (\<lambda>_. []) (7, 1::7, 3) 3 3 5 [2, 3, 4] (sconst 2) =
     Inl AssertionError" by simp
  from gen_proof_threshold_precondition
    [of 4 3 "\<lambda>_. small_digest" "\<lambda>_. []" "(7, 1::7, 3)" 5 "[2, 3, 4, 5]" "sconst 2"] run
  have "(3::int) < 4 \<and> int (length [2, 3, 4, 5::7]) = 4" by blast
  with run fail show ?thesis by simp
qed

section \<open>The Lagrange coefficient\<close>

lemma is_prime_gt_1: "is_prime p \<Longrightarrow> 1 < p"
  by (simp add: is_prime_def)

lemma is_prime_coprime:
  assumes "is_prime p" and "\<not> p dvd a"
  shows "coprime a p"
proof -
  define g where "g = gcd a p"
  have p1: "1 < p" using assms(1) by (rule is_prime_gt_1)
  have gp: "g dvd p" and ga: "g dvd a" by (simp_all add: g_def)
  have g0: "0 \<le> g" by (simp add: g_def)
  have gle: "g \<le> p" using gp p1 by (intro zdvd_imp_le) simp_all
  have gnp: "g \<noteq> p" using ga assms(2) by auto
  have gn0: "g \<noteq> 0" using gp p1 by auto
  have "g = 1"
  proof (rule ccontr)
    assume "g \<noteq> 1"
    then have "g \<in> set [2..p - 1]" using g0 gn0 gle gnp by simp
    then have "\<not> g dvd p" using assms(1) by (simp add: is_prime_def list_all_iff)
    with gp show False by simp
  qed
  then show ?thesis by (simp add: g_def gcd_eq_1_imp_coprime)
qed

lemma is_prime_dvd_mult:
  assumes "is_prime p" and "p dvd a * b"
  shows "p dvd a \<or> p dvd b"
proof (cases "p dvd a")
  case True
  then show ?thesis by simp
next
  case False
  from is_prime_coprime [OF assms(1) False] have "coprime p a" by (simp add: coprime_commute)
  then show ?thesis using assms(2) by (simp add: coprime_dvd_mult_right_iff)
qed

lemma is_prime_inverse_exists:
  assumes "is_prime p" and "\<not> p dvd b"
  shows "\<exists>y. (b * y) mod p = 1"
proof -
  from is_prime_coprime [OF assms] have "gcd b p = 1" by simp
  then obtain u v where uv: "u * b + v * p = 1" using bezout_int [of b p] by auto
  have "b * u = 1 - v * p" using uv by (simp add: algebra_simps)
  then have "(b * u) mod p = (1 - v * p) mod p" by simp
  also have "\<dots> = 1 mod p" by (simp add: mod_diff_right_eq [symmetric])
  also have "\<dots> = 1" using is_prime_gt_1 [OF assms(1)] by simp
  finally show ?thesis by blast
qed

lemma mod_inverse_prime:
  assumes "is_prime p"
  shows "(\<not> p dvd b \<longrightarrow> (\<exists>z. mod_inverse b p = Inr z)) \<and>
         (p dvd b \<longrightarrow> mod_inverse b p = Inl NoInverse)"
proof (intro conjI impI)
  assume "\<not> p dvd b"
  from is_prime_inverse_exists [OF assms this] obtain y where "(b * y) mod p = 1" by blast
  then show "\<exists>z. mod_inverse b p = Inr z"
    using mod_inverse_exists [of p b y] is_prime_gt_1 [OF assms] by simp
next
  assume d: "p dvd b"
  show "mod_inverse b p = Inl NoInverse"
  proof (cases "mod_inverse b p")
    case (Inl e)
    then show ?thesis using mod_inverse_Inl by blast
  next
    case (Inr z)
    from mod_inverse_Inr [OF Inr] have "(b * z) mod p = 1" by simp
    moreover have "(b * z) mod p = 0" using d by simp
    ultimately show ?thesis by simp
  qed
qed

lemma lagrange_foldl:
  "foldl (\<lambda>(top, bottom) j. if j \<noteq> i then (top * j, bottom * (j - i)) else (top, bottom))
     (t, b) xs =
   (t * top_of i xs, b * bottom_of i xs)"
  by (induction xs arbitrary: t b) (simp_all add: top_of_def bottom_of_def mult.assoc)

lemma lagrange_unfold:
  "lagrange i xs p =
     (case mod_inverse (bottom_of i xs) p of
        Inl e \<Rightarrow> Inl e
      | Inr z \<Rightarrow> Inr ((top_of i xs * z) mod p))"
  by (simp add: lagrange_def lagrange_foldl)

lemma dvd_mod_minus: "(p::int) dvd (a mod p - a)"
  by (simp add: mod_eq_dvd_iff [symmetric])

lemma top_of_Cons:
  "top_of i (j # js) = (if j = i then top_of i js else j * top_of i js)"
  by (simp add: top_of_def)

lemma bottom_of_Cons:
  "bottom_of i (j # js) = (if j = i then bottom_of i js else (j - i) * bottom_of i js)"
  by (simp add: bottom_of_def)

lemma bottom_of_dvd_iff:
  assumes "is_prime p"
  shows "p dvd bottom_of i xs \<longleftrightarrow> (\<exists>j \<in> set xs. j \<noteq> i \<and> p dvd (j - i))"
proof (induction xs)
  case Nil
  show ?case using is_prime_gt_1 [OF assms] by (simp add: bottom_of_def)
next
  case (Cons j js)
  show ?case
  proof (cases "j = i")
    case True
    then show ?thesis using Cons by (simp add: bottom_of_Cons)
  next
    case False
    have "p dvd (j - i) * bottom_of i js \<longleftrightarrow> p dvd (j - i) \<or> p dvd bottom_of i js"
      using is_prime_dvd_mult [OF assms] by auto
    then show ?thesis using False Cons by (auto simp: bottom_of_Cons)
  qed
qed

lemma inverse_dvd:
  assumes "1 < p" and "mod_inverse b p = Inr z"
  shows "p dvd (z * b - 1)"
proof -
  from mod_inverse_Inr [OF assms(2)] have "(b * z) mod p = 1 mod p" using assms(1) by simp
  then show ?thesis by (simp add: mod_eq_dvd_iff mult.commute)
qed

lemma lagrange_char:
  assumes "is_prime p"
  shows "(p dvd bottom_of i xs \<longrightarrow> lagrange i xs p = Inl NoInverse) \<and>
         (\<not> p dvd bottom_of i xs \<longrightarrow>
            (\<exists>L. lagrange i xs p = Inr L \<and> 0 \<le> L \<and> L < p \<and>
                 p dvd (L * bottom_of i xs - top_of i xs)))"
proof (intro conjI impI)
  assume "p dvd bottom_of i xs"
  then show "lagrange i xs p = Inl NoInverse"
    using mod_inverse_prime [OF assms, of "bottom_of i xs"] by (simp add: lagrange_unfold)
next
  assume nd: "\<not> p dvd bottom_of i xs"
  have p1: "1 < p" using assms by (rule is_prime_gt_1)
  from nd mod_inverse_prime [OF assms, of "bottom_of i xs"] obtain z where
    z: "mod_inverse (bottom_of i xs) p = Inr z" by blast
  define L where "L = (top_of i xs * z) mod p"
  have run: "lagrange i xs p = Inr L" by (simp add: lagrange_unfold z L_def)
  have rng: "0 \<le> L" "L < p" using p1 by (simp_all add: L_def)
  have d1: "p dvd (L - top_of i xs * z)" unfolding L_def by (rule dvd_mod_minus)
  have d2: "p dvd (z * bottom_of i xs - 1)" by (rule inverse_dvd [OF p1 z])
  have "L * bottom_of i xs - top_of i xs =
        (L - top_of i xs * z) * bottom_of i xs + top_of i xs * (z * bottom_of i xs - 1)"
    by (simp add: algebra_simps)
  then have "p dvd (L * bottom_of i xs - top_of i xs)"
    using d1 d2 by (simp add: dvd_add)
  with run rng show "\<exists>L. lagrange i xs p = Inr L \<and> 0 \<le> L \<and> L < p \<and>
                 p dvd (L * bottom_of i xs - top_of i xs)" by blast
qed

lemma lagrange_coefficient_spec_char:
  assumes "is_prime p"
  shows "(p dvd bottom_of i xs \<longrightarrow> lagrange_coefficient_spec i xs p = Inl NoInverse) \<and>
         (\<not> p dvd bottom_of i xs \<longrightarrow>
            (\<exists>L. lagrange_coefficient_spec i xs p = Inr L \<and> 0 \<le> L \<and> L < p \<and>
                 p dvd (L * bottom_of i xs - top_of i xs)))"
proof (induction xs)
  case Nil
  have p1: "1 < p" using assms by (rule is_prime_gt_1)
  then show ?case by (simp add: bottom_of_def top_of_def)
next
  case (Cons j js)
  have p1: "1 < p" using assms by (rule is_prime_gt_1)
  show ?case
  proof (cases "j = i")
    case True
    then show ?thesis using Cons by (simp add: bottom_of_Cons top_of_Cons)
  next
    case ji: False
    show ?thesis
    proof (cases "p dvd (j - i)")
      case True
      then have "mod_inverse (j - i) p = Inl NoInverse"
        using mod_inverse_prime [OF assms, of "j - i"] by simp
      then show ?thesis using ji True by (simp add: bottom_of_Cons)
    next
      case nd: False
      from nd mod_inverse_prime [OF assms, of "j - i"] obtain d where
        d: "mod_inverse (j - i) p = Inr d" by blast
      have dd: "p dvd (d * (j - i) - 1)" by (rule inverse_dvd [OF p1 d])
      show ?thesis
      proof (cases "p dvd bottom_of i js")
        case True
        then have "lagrange_coefficient_spec i js p = Inl NoInverse" using Cons by simp
        then show ?thesis using ji True d by (simp add: bottom_of_Cons)
      next
        case ndb: False
        with Cons obtain L where L: "lagrange_coefficient_spec i js p = Inr L"
          and Ld: "p dvd (L * bottom_of i js - top_of i js)" by blast
        define L' where "L' = (j * d * L) mod p"
        have run: "lagrange_coefficient_spec i (j # js) p = Inr L'"
          using ji d L by (simp add: L'_def)
        have rng: "0 \<le> L'" "L' < p" using p1 by (simp_all add: L'_def)
        have d1: "p dvd (L' - j * d * L)" unfolding L'_def by (rule dvd_mod_minus)
        have "L' * ((j - i) * bottom_of i js) - j * top_of i js =
              (L' - j * d * L) * ((j - i) * bottom_of i js) +
              j * L * bottom_of i js * (d * (j - i) - 1) +
              j * (L * bottom_of i js - top_of i js)"
          by (simp add: algebra_simps)
        then have dv: "p dvd (L' * ((j - i) * bottom_of i js) - j * top_of i js)"
          using d1 dd Ld by (simp add: dvd_add)
        have ndc: "\<not> p dvd (j - i) * bottom_of i js"
          using is_prime_dvd_mult [OF assms] nd ndb by blast
        show ?thesis using ji run rng dv ndc by (simp add: bottom_of_Cons top_of_Cons)
      qed
    qed
  qed
qed

lemma residue_unique:
  assumes "is_prime p" and "\<not> p dvd b"
    and "0 \<le> L" "L < p" "0 \<le> L'" "L' < p"
    and "p dvd (L * b - t)" "p dvd (L' * b - t)"
  shows "L = L'"
proof -
  have eq: "(L - L') * b = (L * b - t) - (L' * b - t)" by (simp add: algebra_simps)
  have "p dvd (L * b - t) - (L' * b - t)" by (rule dvd_diff [OF assms(7) assms(8)])
  then have "p dvd (L - L') * b" by (simp only: eq)
  with is_prime_dvd_mult [OF assms(1)] assms(2) have "p dvd (L - L')" by blast
  then have "L mod p = L' mod p" by (simp add: mod_eq_dvd_iff)
  then show ?thesis using assms(3-6) by simp
qed

lemma is_prime_7: "is_prime 7" by code_simp

text \<open>
  C8 (as the code has it): for a prime \<open>p\<close>, \<^verbatim>\<open>__lagrange\<close> returns what the
  specification's product of the terms \<open>j * (j - i)\<^sup>-\<^sup>1\<close> returns, and it fails
  exactly when some \<open>j \<noteq> i\<close> of the list is congruent to \<open>i\<close> modulo \<open>p\<close>. A
  repeated index does not make it fail: the entries equal to \<open>i\<close> are skipped and a
  repeated \<open>j \<noteq> i\<close> enters both products twice.
\<close>

theorem lagrange_refines_spec:
  assumes "is_prime p"
  shows "lagrange i index_list p = lagrange_coefficient_spec i index_list p \<and>
         ((\<exists>e. lagrange i index_list p = Inl e) \<longleftrightarrow>
          (\<exists>j \<in> set index_list. j \<noteq> i \<and> p dvd (j - i)))"
proof (cases "p dvd bottom_of i index_list")
  case True
  then show ?thesis
    using lagrange_char [OF assms, of i index_list]
      lagrange_coefficient_spec_char [OF assms, of i index_list]
      bottom_of_dvd_iff [OF assms, of i index_list] by simp
next
  case False
  from False lagrange_char [OF assms, of i index_list] obtain L where
    L: "lagrange i index_list p = Inr L" "0 \<le> L" "L < p"
      "p dvd (L * bottom_of i index_list - top_of i index_list)" by blast
  from False lagrange_coefficient_spec_char [OF assms, of i index_list] obtain L' where
    L': "lagrange_coefficient_spec i index_list p = Inr L'" "0 \<le> L'" "L' < p"
      "p dvd (L' * bottom_of i index_list - top_of i index_list)" by blast
  have "L = L'" by (rule residue_unique [OF assms False L(2,3) L'(2,3) L(4) L'(4)])
  then show ?thesis using L(1) L'(1) False bottom_of_dvd_iff [OF assms, of i index_list] by simp
qed

theorem lagrange_refines_spec_witness:
  "is_prime 7 \<and> lagrange 1 [1, 2, 3] 7 = Inr 3 \<and> lagrange_coefficient_spec 1 [1, 2, 3] 7 = Inr 3 \<and>
   lagrange 1 [1, 8] 7 = Inl NoInverse \<and> lagrange_coefficient_spec 1 [1, 8] 7 = Inl NoInverse"
proof -
  have a: "lagrange 1 [1, 2, 3] 7 = Inr 3" by code_simp
  have b: "lagrange 1 [1, 8] 7 = Inl NoInverse" by code_simp
  from lagrange_refines_spec [OF is_prime_7, of 1 "[1, 2, 3]"]
    lagrange_refines_spec [OF is_prime_7, of 1 "[1, 8]"] a b is_prime_7
  show ?thesis by simp
qed

text \<open>
  C8 as stated fails: the list \<open>[1, 2, 2]\<close> repeats an index and the call returns 4.
\<close>

theorem lagrange_duplicate_counterexample:
  "\<not> distinct [1, 2, 2 :: int] \<and> lagrange 1 [1, 2, 2] 7 = Inr 4"
  by code_simp

section \<open>Reconstruction\<close>

lemma lagrange_basis_0_remove:
  assumes "finite S" and "a \<in> S" and "a \<noteq> i"
  shows "(of_int a - of_int i) * lagrange_basis_0 S i = of_int a * lagrange_basis_0 (S - {a}) i"
proof -
  have fin: "finite (S - {i})" using assms(1) by simp
  have mem: "a \<in> S - {i}" using assms(2,3) by simp
  have eq: "S - {i} - {a} = S - {a} - {i}" by auto
  have nz: "(of_int a :: rat) - of_int i \<noteq> 0" using assms(3) by simp
  have "lagrange_basis_0 S i =
        of_int a / (of_int a - of_int i) *
        (\<Prod>j\<in>S - {i} - {a}. of_int j / (of_int j - of_int i))"
    unfolding lagrange_basis_0_def by (rule prod.remove [OF fin mem])
  then have "lagrange_basis_0 S i =
        of_int a / (of_int a - of_int i) * lagrange_basis_0 (S - {a}) i"
    by (simp only: eq lagrange_basis_0_def)
  then show ?thesis using nz by (simp add: field_simps)
qed

lemma sum_skip:
  assumes "finite S" and "a \<in> S"
  shows "(\<Sum>i\<in>S. if i = a then 0 else f i) = (\<Sum>i\<in>S - {a}. (f i :: rat))"
proof -
  have "(\<Sum>i\<in>S. if i = a then 0 else f i) = (\<Sum>i\<in>S - {a}. if i = a then 0 else f i)"
    using sum.remove [OF assms, of "\<lambda>i. if i = a then 0 else f i"] by simp
  also have "\<dots> = (\<Sum>i\<in>S - {a}. f i)" by (rule sum.cong) auto
  finally show ?thesis .
qed

lemma lagrange_basis_0_sum:
  "finite S \<Longrightarrow> S \<noteq> {} \<Longrightarrow> (\<Sum>i\<in>S. lagrange_basis_0 S i) = 1"
proof (induction "card S" arbitrary: S rule: less_induct)
  case less
  show ?case
  proof (cases "card S = 1")
    case True
    then obtain a where "S = {a}" by (rule card_1_singletonE)
    then show ?thesis by (simp add: lagrange_basis_0_def)
  next
    case False
    from less.prems obtain a where a: "a \<in> S" by blast
    have "card S \<noteq> 0" using less.prems by simp
    with False have c2: "2 \<le> card S" by simp
    have "card (S - {a}) = card S - 1" using a by simp
    with c2 have "card (S - {a}) \<noteq> 0" by simp
    then have "S - {a} \<noteq> {}" using card.empty by metis
    then obtain b where b: "b \<in> S" "b \<noteq> a" by blast
    let ?Sa = "S - {a}" and ?Sb = "S - {b}"
    have fa: "finite ?Sa" and fb: "finite ?Sb" using less.prems(1) by simp_all
    have ca: "card ?Sa < card S" by (rule card_Diff1_less [OF less.prems(1) a])
    have cb: "card ?Sb < card S" by (rule card_Diff1_less [OF less.prems(1) b(1)])
    have nea: "?Sa \<noteq> {}" and neb: "?Sb \<noteq> {}" using a b by auto
    have sa: "(\<Sum>i\<in>?Sa. lagrange_basis_0 ?Sa i) = 1" by (rule less.hyps [OF ca fa nea])
    have sb: "(\<Sum>i\<in>?Sb. lagrange_basis_0 ?Sb i) = 1" by (rule less.hyps [OF cb fb neb])
    have step: "(of_int a - of_int b) * lagrange_basis_0 S i =
        of_int a * (if i = a then 0 else lagrange_basis_0 ?Sa i) -
        of_int b * (if i = b then 0 else lagrange_basis_0 ?Sb i)" if i: "i \<in> S" for i
    proof -
      have ra: "(of_int a - of_int i) * lagrange_basis_0 S i = of_int a * lagrange_basis_0 ?Sa i"
        if "a \<noteq> i" by (rule lagrange_basis_0_remove [OF less.prems(1) a that])
      have rb: "(of_int b - of_int i) * lagrange_basis_0 S i = of_int b * lagrange_basis_0 ?Sb i"
        if "b \<noteq> i" by (rule lagrange_basis_0_remove [OF less.prems(1) b(1) that])
      show ?thesis
      proof (cases "i = a")
        case True
        with rb b(2) show ?thesis by (simp add: algebra_simps)
      next
        case ia: False
        show ?thesis
        proof (cases "i = b")
          case True
          with ra ia show ?thesis by (simp add: algebra_simps)
        next
          case False
          with ra rb ia show ?thesis by (simp add: algebra_simps)
        qed
      qed
    qed
    have "(of_int a - of_int b) * (\<Sum>i\<in>S. lagrange_basis_0 S i) =
          (\<Sum>i\<in>S. (of_int a - of_int b) * lagrange_basis_0 S i)"
      by (simp add: sum_distrib_left)
    also have "\<dots> = (\<Sum>i\<in>S. of_int a * (if i = a then 0 else lagrange_basis_0 ?Sa i) -
        of_int b * (if i = b then 0 else lagrange_basis_0 ?Sb i))"
      by (rule sum.cong) (simp_all add: step)
    also have "\<dots> = of_int a * (\<Sum>i\<in>S. if i = a then 0 else lagrange_basis_0 ?Sa i) -
        of_int b * (\<Sum>i\<in>S. if i = b then 0 else lagrange_basis_0 ?Sb i)"
      by (simp add: sum_subtractf sum_distrib_left)
    also have "\<dots> = of_int a - of_int b"
      by (simp add: sum_skip [OF less.prems(1) a] sum_skip [OF less.prems(1) b(1)] sa sb)
    finally have "(of_int a - of_int b) * (\<Sum>i\<in>S. lagrange_basis_0 S i) = (of_int a - of_int b) * 1"
      by simp
    moreover have "(of_int a :: rat) - of_int b \<noteq> 0" using b(2) by simp
    ultimately show ?thesis by (simp only: mult_cancel_left) simp
  qed
qed

lemma lagrange_basis_0_sum_power:
  "finite S \<Longrightarrow> k < card S \<Longrightarrow>
   (\<Sum>i\<in>S. of_int i ^ k * lagrange_basis_0 S i) = (if k = 0 then 1 else 0)"
proof (induction k arbitrary: S)
  case 0
  then have "S \<noteq> {}" by auto
  with 0 show ?case by (simp add: lagrange_basis_0_sum)
next
  case (Suc k)
  from Suc.prems have "S \<noteq> {}" by auto
  then obtain a where a: "a \<in> S" by blast
  let ?Sa = "S - {a}"
  have fa: "finite ?Sa" using Suc.prems(1) by simp
  have ka: "k < card ?Sa" using Suc.prems a by simp
  have kS: "k < card S" using Suc.prems by simp
  have IHa: "(\<Sum>i\<in>?Sa. of_int i ^ k * lagrange_basis_0 ?Sa i) = (if k = 0 then 1 else 0)"
    by (rule Suc.IH [OF fa ka])
  have IHS: "(\<Sum>i\<in>S. of_int i ^ k * lagrange_basis_0 S i) = (if k = 0 then 1 else 0)"
    by (rule Suc.IH [OF Suc.prems(1) kS])
  have step: "of_int i ^ Suc k * lagrange_basis_0 S i =
      of_int a * (of_int i ^ k * lagrange_basis_0 S i) -
      of_int a * (if i = a then 0 else of_int i ^ k * lagrange_basis_0 ?Sa i)"
    if i: "i \<in> S" for i
  proof (cases "i = a")
    case True
    then show ?thesis by simp
  next
    case False
    then have "a \<noteq> i" by simp
    from lagrange_basis_0_remove [OF Suc.prems(1) a this]
    have "of_int i * lagrange_basis_0 S i =
          of_int a * lagrange_basis_0 S i - of_int a * lagrange_basis_0 ?Sa i"
      by (simp add: algebra_simps)
    then have "of_int i ^ k * (of_int i * lagrange_basis_0 S i) =
          of_int i ^ k * (of_int a * lagrange_basis_0 S i - of_int a * lagrange_basis_0 ?Sa i)"
      by simp
    with False show ?thesis by (simp add: algebra_simps)
  qed
  have "(\<Sum>i\<in>S. of_int i ^ Suc k * lagrange_basis_0 S i) =
        (\<Sum>i\<in>S. of_int a * (of_int i ^ k * lagrange_basis_0 S i) -
           of_int a * (if i = a then 0 else of_int i ^ k * lagrange_basis_0 ?Sa i))"
    by (rule sum.cong) (simp_all only: step)
  also have "\<dots> = of_int a * (\<Sum>i\<in>S. of_int i ^ k * lagrange_basis_0 S i) -
        of_int a * (\<Sum>i\<in>S. if i = a then 0 else of_int i ^ k * lagrange_basis_0 ?Sa i)"
    by (simp add: sum_subtractf sum_distrib_left)
  also have "\<dots> = 0"
    by (simp add: sum_skip [OF Suc.prems(1) a] IHa IHS)
  finally show ?case by simp
qed

lemma top_of_set: "distinct xs \<Longrightarrow> top_of i xs = top_set (set xs) i"
proof -
  assume d: "distinct xs"
  have s: "set (filter (\<lambda>j. j \<noteq> i) xs) = set xs - {i}" by auto
  have "top_set (set xs) i = prod (\<lambda>j. j) (set (filter (\<lambda>j. j \<noteq> i) xs))"
    by (simp only: top_set_def s)
  also have "\<dots> = prod_list (map (\<lambda>j. j) (filter (\<lambda>j. j \<noteq> i) xs))"
    by (rule prod.distinct_set_conv_list) (simp add: d)
  finally show ?thesis by (simp add: top_of_def)
qed

lemma bottom_of_set: "distinct xs \<Longrightarrow> bottom_of i xs = bot_set (set xs) i"
proof -
  assume d: "distinct xs"
  have s: "set (filter (\<lambda>j. j \<noteq> i) xs) = set xs - {i}" by auto
  have "bot_set (set xs) i = prod (\<lambda>j. j - i) (set (filter (\<lambda>j. j \<noteq> i) xs))"
    by (simp only: bot_set_def s)
  also have "\<dots> = prod_list (map (\<lambda>j. j - i) (filter (\<lambda>j. j \<noteq> i) xs))"
    by (rule prod.distinct_set_conv_list) (simp add: d)
  finally show ?thesis by (simp add: bottom_of_def)
qed

lemma bot_set_nonzero: "finite S \<Longrightarrow> bot_set S i \<noteq> 0"
  by (simp add: bot_set_def)

lemma lagrange_basis_0_quotient:
  "lagrange_basis_0 S i = of_int (top_set S i) / of_int (bot_set S i)"
  by (simp add: lagrange_basis_0_def top_set_def bot_set_def prod_dividef)

lemma lagrange_int_identity:
  assumes fin: "finite S" and k: "k < card S"
  shows "(\<Sum>i\<in>S. i ^ k * top_set S i * (\<Prod>l\<in>S - {i}. bot_set S l)) =
         (if k = 0 then 1 else 0) * (\<Prod>l\<in>S. bot_set S l)"
proof -
  define B where "B = (\<Prod>l\<in>S. bot_set S l)"
  have tm: "rat_of_int (i ^ k * top_set S i * (\<Prod>l\<in>S - {i}. bot_set S l)) =
        of_int B * (of_int i ^ k * lagrange_basis_0 S i)" if i: "i \<in> S" for i
  proof -
    have "B = bot_set S i * (\<Prod>l\<in>S - {i}. bot_set S l)"
      unfolding B_def by (rule prod.remove [OF fin i])
    then have "rat_of_int B = of_int (bot_set S i) * of_int (\<Prod>l\<in>S - {i}. bot_set S l)"
      by simp
    moreover have "rat_of_int (bot_set S i) \<noteq> 0" using bot_set_nonzero [OF fin] by simp
    ultimately show ?thesis by (simp add: lagrange_basis_0_quotient)
  qed
  have "rat_of_int (\<Sum>i\<in>S. i ^ k * top_set S i * (\<Prod>l\<in>S - {i}. bot_set S l)) =
        (\<Sum>i\<in>S. rat_of_int (i ^ k * top_set S i * (\<Prod>l\<in>S - {i}. bot_set S l)))"
    by simp
  also have "\<dots> = (\<Sum>i\<in>S. of_int B * (of_int i ^ k * lagrange_basis_0 S i))"
    by (rule sum.cong) (simp_all only: tm)
  also have "\<dots> = of_int B * (\<Sum>i\<in>S. of_int i ^ k * lagrange_basis_0 S i)"
    by (simp add: sum_distrib_left)
  also have "\<dots> = of_int B * (if k = 0 then 1 else 0)"
    by (simp only: lagrange_basis_0_sum_power [OF fin k])
  also have "\<dots> = rat_of_int ((if k = 0 then 1 else 0) * B)" by simp
  finally show ?thesis unfolding B_def by (simp only: of_int_eq_iff)
qed

lemma is_prime_dvd_prod:
  assumes "is_prime p" and "finite A"
  shows "p dvd prod f A \<Longrightarrow> \<exists>a\<in>A. p dvd f a"
  using assms(2)
proof (induction A)
  case empty
  then show ?case using is_prime_gt_1 [OF assms(1)] by simp
next
  case (insert x A)
  then have "p dvd f x * prod f A" by simp
  with is_prime_dvd_mult [OF assms(1)] have "p dvd f x \<or> p dvd prod f A" by blast
  with insert show ?case by auto
qed

lemma lagrange_mod_identity:
  assumes pr: "is_prime p" and fin: "finite S"
    and pw: "\<forall>i\<in>S. \<forall>j\<in>S. j \<noteq> i \<longrightarrow> \<not> p dvd (j - i)"
    and k: "k < card S"
    and L: "\<forall>i\<in>S. p dvd (L i * bot_set S i - top_set S i)"
  shows "p dvd ((\<Sum>i\<in>S. i ^ k * L i) - (if k = 0 then 1 else 0))"
proof -
  define B where "B = (\<Prod>l\<in>S. bot_set S l)"
  define c where "c i = (\<Prod>l\<in>S - {i}. bot_set S l)" for i
  have Bc: "B = bot_set S i * c i" if "i \<in> S" for i
    unfolding B_def c_def by (rule prod.remove [OF fin that])
  have ndB: "\<not> p dvd B"
  proof
    assume "p dvd B"
    then obtain l where l: "l \<in> S" "p dvd bot_set S l"
      unfolding B_def using is_prime_dvd_prod [OF pr fin] by blast
    have "finite (S - {l})" using fin by simp
    from is_prime_dvd_prod [OF pr this] l(2) obtain j where "j \<in> S - {l}" "p dvd (j - l)"
      unfolding bot_set_def by blast
    with pw l(1) show False by auto
  qed
  have ident: "(\<Sum>i\<in>S. i ^ k * top_set S i * c i) = (if k = 0 then 1 else 0) * B"
    unfolding c_def B_def by (rule lagrange_int_identity [OF fin k])
  have "B * ((\<Sum>i\<in>S. i ^ k * L i) - (if k = 0 then 1 else 0)) =
        (\<Sum>i\<in>S. B * (i ^ k * L i)) - (\<Sum>i\<in>S. i ^ k * top_set S i * c i)"
    by (simp add: ident right_diff_distrib sum_distrib_left)
  also have "\<dots> = (\<Sum>i\<in>S. B * (i ^ k * L i) - i ^ k * top_set S i * c i)"
    by (simp add: sum_subtractf)
  also have "\<dots> = (\<Sum>i\<in>S. i ^ k * c i * (L i * bot_set S i - top_set S i))"
  proof (rule sum.cong)
    fix i assume "i \<in> S"
    from Bc [OF this] show "B * (i ^ k * L i) - i ^ k * top_set S i * c i =
        i ^ k * c i * (L i * bot_set S i - top_set S i)"
      by (simp add: algebra_simps)
  qed simp
  finally have eq: "B * ((\<Sum>i\<in>S. i ^ k * L i) - (if k = 0 then 1 else 0)) =
        (\<Sum>i\<in>S. i ^ k * c i * (L i * bot_set S i - top_set S i))" .
  have "p dvd (\<Sum>i\<in>S. i ^ k * c i * (L i * bot_set S i - top_set S i))"
    by (rule dvd_sum) (use L in auto)
  then have "p dvd B * ((\<Sum>i\<in>S. i ^ k * L i) - (if k = 0 then 1 else 0))"
    by (simp only: eq)
  with is_prime_dvd_mult [OF pr] ndB show ?thesis by blast
qed

lemma poly_sum_as_sum: "poly_sum px x m = (\<Sum>k<length px. px ! k * x ^ (m + k))"
proof (induction px arbitrary: m)
  case Nil
  show ?case by simp
next
  case (Cons a px)
  have "(\<Sum>k<length (a # px). (a # px) ! k * x ^ (m + k)) =
        a * x ^ m + (\<Sum>k<length px. px ! k * x ^ (Suc m + k))"
    by (simp add: sum.lessThan_Suc_shift del: sum.lessThan_Suc)
  then show ?case by (simp add: Cons.IH del: sum.lessThan_Suc)
qed

lemma smul_cong:
  assumes "smul p G = 0" and "p dvd (a - b)"
  shows "smul a G = smul b G"
proof -
  from assms(2) obtain q where "a - b = p * q" by (auto simp: dvd_def)
  then have "a = b + q * p" by (simp add: algebra_simps)
  then have "smul a G = smul b G + smul q (smul p G)" by (simp add: smul_add smul_mult)
  with assms(1) show ?thesis by simp
qed

lemma smul_sum_list:
  "sum_list (map (\<lambda>i. smul (c i) (smul (v i) G)) xs) = smul (sum_list (map (\<lambda>i. c i * v i) xs)) G"
  by (induction xs) (simp_all add: smul_add smul_mult)

lemma decode_loop_sum:
  assumes "\<forall>i \<in> set xs. lagrange i xs p = Inr (Lf i)"
  shows "set ys \<subseteq> set xs \<Longrightarrow> (\<forall>m < length ys. xs ! (k + m) = ys ! m) \<Longrightarrow>
    decode_loop xs p ans (zip (map f ys) [k..<k + length ys]) =
      Inr (ans + sum_list (map (\<lambda>i. smul (Lf i) (f i)) ys))"
proof (induction ys arbitrary: k ans)
  case Nil
  show ?case by simp
next
  case (Cons y ys)
  have y: "xs ! k = y" using Cons.prems(2) by auto
  have ly: "lagrange y xs p = Inr (Lf y)" using assms Cons.prems(1) by simp
  have nth: "\<forall>m < length ys. xs ! (Suc k + m) = ys ! m"
  proof (intro allI impI)
    fix m assume "m < length ys"
    then have "Suc m < length (y # ys)" by simp
    with Cons.prems(2) have "xs ! (k + Suc m) = (y # ys) ! Suc m" by blast
    then show "xs ! (Suc k + m) = ys ! m" by simp
  qed
  have sub: "set ys \<subseteq> set xs" using Cons.prems(1) by simp
  have "decode_loop xs p ans (zip (map f (y # ys)) [k..<k + length (y # ys)]) =
        decode_loop xs p (ans + smul (Lf y) (f y)) (zip (map f ys) [Suc k..<Suc k + length ys])"
    by (simp add: upt_shift y ly del: upt_Suc)
  also have "\<dots> = Inr (ans + smul (Lf y) (f y) + sum_list (map (\<lambda>i. smul (Lf i) (f i)) ys))"
    by (rule Cons.IH [OF sub nth])
  finally show ?case by (simp add: add.assoc)
qed

lemma decode_value:
  assumes "\<forall>i \<in> set xs. lagrange i xs p = Inr (Lf i)" and "xs \<noteq> []"
  shows "decode (map f xs) xs p = Inr (sum_list (map (\<lambda>i. smul (Lf i) (f i)) xs))"
proof -
  from assms(2) obtain x0 xr where xs: "xs = x0 # xr" by (cases xs) auto
  have l0: "lagrange x0 xs p = Inr (Lf x0)" using assms(1) by (simp add: xs)
  have sub: "set xr \<subseteq> set xs" by (auto simp: xs)
  have nth: "\<forall>m < length xr. xs ! (1 + m) = xr ! m" by (simp add: xs)
  have "decode (map f xs) xs p =
        decode_loop xs p (smul (Lf x0) (f x0)) (zip (map f xr) [1..<1 + length xr])"
    using l0 by (simp add: decode_def xs del: upt_Suc)
  also have "\<dots> = Inr (smul (Lf x0) (f x0) + sum_list (map (\<lambda>i. smul (Lf i) (f i)) xr))"
    by (rule decode_loop_sum [OF assms(1) sub nth])
  finally show ?thesis by (simp add: xs)
qed

lemma interpolation_mod:
  assumes pr: "is_prime p" and d: "distinct xs"
    and pw: "\<forall>i\<in>set xs. \<forall>j\<in>set xs. j \<noteq> i \<longrightarrow> \<not> p dvd (j - i)"
    and len: "length px = length xs" and ne: "px \<noteq> []"
    and L: "\<forall>i\<in>set xs. p dvd (Lf i * bot_set (set xs) i - top_set (set xs) i)"
  shows "p dvd (sum_list (map (\<lambda>i. Lf i * poly_sum px i 0) xs) - px ! 0)"
proof -
  let ?S = "set xs" and ?t = "length px"
  have card: "card ?S = ?t" using d len by (simp add: distinct_card)
  have t0: "0 < ?t" using ne by simp
  have "sum_list (map (\<lambda>i. Lf i * poly_sum px i 0) xs) = (\<Sum>i\<in>?S. Lf i * poly_sum px i 0)"
    by (rule sum.distinct_set_conv_list [OF d, symmetric])
  also have "\<dots> = (\<Sum>i\<in>?S. \<Sum>k<?t. px ! k * (i ^ k * Lf i))"
    by (simp add: poly_sum_as_sum sum_distrib_left algebra_simps)
  also have "\<dots> = (\<Sum>k<?t. \<Sum>i\<in>?S. px ! k * (i ^ k * Lf i))"
    by (rule sum.swap)
  also have "\<dots> = (\<Sum>k<?t. px ! k * (\<Sum>i\<in>?S. i ^ k * Lf i))"
    by (simp add: sum_distrib_left)
  finally have lhs: "sum_list (map (\<lambda>i. Lf i * poly_sum px i 0) xs) =
      (\<Sum>k<?t. px ! k * (\<Sum>i\<in>?S. i ^ k * Lf i))" .
  have "px ! 0 = (\<Sum>k<?t. px ! k * (if k = 0 then 1 else 0))"
    using t0 by (simp add: if_distrib [of "\<lambda>x. _ * x"] sum.delta' cong: if_cong)
  with lhs have "sum_list (map (\<lambda>i. Lf i * poly_sum px i 0) xs) - px ! 0 =
      (\<Sum>k<?t. px ! k * ((\<Sum>i\<in>?S. i ^ k * Lf i) - (if k = 0 then 1 else 0)))"
    by (simp add: sum_subtractf right_diff_distrib)
  moreover have "p dvd (\<Sum>k<?t. px ! k * ((\<Sum>i\<in>?S. i ^ k * Lf i) - (if k = 0 then 1 else 0)))"
  proof (rule dvd_sum)
    fix k assume "k \<in> {..<?t}"
    then have "k < card ?S" by (simp add: card)
    from lagrange_mod_identity [OF pr _ pw this L]
    show "p dvd px ! k * ((\<Sum>i\<in>?S. i ^ k * Lf i) - (if k = 0 then 1 else 0))" by simp
  qed
  ultimately show ?thesis by simp
qed

lemma small_difference_not_dvd:
  assumes "1 \<le> i" "i \<le> n" "1 \<le> j" "j \<le> n" "j \<noteq> i" "n < p"
  shows "\<not> (p::int) dvd (j - i)"
proof
  assume "p dvd (j - i)"
  moreover have "j - i \<noteq> 0" using assms(5) by simp
  ultimately have "\<bar>p\<bar> \<le> \<bar>j - i\<bar>" by (rule dvd_imp_le_int [rotated])
  with assms show False by simp
qed

lemma is_prime_3: "is_prime 3" by code_simp

lemma lagrange_example_fails: "lagrange 1 [1, 4] 3 = Inl NoInverse" by code_simp

text \<open>
  C1 (with the bound \<open>n < p\<close>): for a prime \<open>p\<close>, a point \<open>G\<close> of a group of order
  \<open>p\<close>, \<open>1 \<le> t < n < p\<close>, the polynomial of \<^verbatim>\<open>gen_polynomial\<close> for the secret
  \<open>m\<close> and the shares of \<^verbatim>\<open>calc_shares\<close>: for every list of \<open>t\<close> distinct indices
  of \<open>[1, n]\<close>, \<^verbatim>\<open>decode\<close> of the points \<open>share\<^sub>i * G\<close> and that list returns
  \<open>m * G\<close>, the same point for every such list.
\<close>

theorem reconstruction_correctness:
  fixes G :: "'g::ab_group_add"
  assumes pr: "is_prime p" and ord: "smul p G = 0"
    and t1: "1 \<le> t" and tn: "t < n" and np: "n < p"
    and gp: "gen_polynomial t m p rng = Inr (px, rng')"
    and sh: "calc_shares px t n p = Inr shares"
    and d: "distinct index_list" and len: "int (length index_list) = t"
    and sub: "set index_list \<subseteq> {1..n}"
  shows "decode (map (\<lambda>i. smul (shares ! nat (i - 1)) G) index_list) index_list p =
           Inr (smul m G)"
proof -
  let ?xs = "index_list"
  let ?f = "\<lambda>i. smul (shares ! nat (i - 1)) G"
  from gp have px: "px = m # stake (nat (t - 1)) rng"
    by (auto simp: gen_polynomial_def randoms_def)
  have lpx: "int (length px) = t" using t1 by (simp add: px)
  have px0: "px ! 0 = m" and pne: "px \<noteq> []" by (simp_all add: px)
  have lxs: "length px = length ?xs" using lpx len by simp
  have xne: "?xs \<noteq> []" using len t1 by auto
  have pw: "\<forall>i\<in>set ?xs. \<forall>j\<in>set ?xs. j \<noteq> i \<longrightarrow> \<not> p dvd (j - i)"
  proof (intro ballI impI)
    fix i j assume "i \<in> set ?xs" "j \<in> set ?xs" "j \<noteq> i"
    with sub have "1 \<le> i" "i \<le> n" "1 \<le> j" "j \<le> n" by auto
    then show "\<not> p dvd (j - i)" using \<open>j \<noteq> i\<close> np by (rule small_difference_not_dvd)
  qed
  define Lf where "Lf i = (case lagrange i ?xs p of Inr L \<Rightarrow> L | Inl e \<Rightarrow> 0)" for i
  have lag: "lagrange i ?xs p = Inr (Lf i) \<and>
             p dvd (Lf i * bot_set (set ?xs) i - top_set (set ?xs) i)"
    if i: "i \<in> set ?xs" for i
  proof -
    have "\<not> p dvd bottom_of i ?xs"
      using bottom_of_dvd_iff [OF pr, of i ?xs] pw i by blast
    with lagrange_char [OF pr, of i ?xs] obtain L where
      "lagrange i ?xs p = Inr L" "p dvd (L * bottom_of i ?xs - top_of i ?xs)" by blast
    then show ?thesis by (simp add: Lf_def bottom_of_set [OF d] top_of_set [OF d])
  qed
  have fi: "?f i = smul (poly_sum px i 0) G" if i: "i \<in> set ?xs" for i
  proof -
    from i sub have b: "1 \<le> i" "i \<le> n" by auto
    then have "nat (i - 1) < nat n" by simp
    with calc_shares_nth [OF sh]
    have "calc_share px t (1 + int (nat (i - 1))) p = Inr (shares ! nat (i - 1))" by blast
    then have "calc_share px t i p = Inr (shares ! nat (i - 1))" using b by simp
    with calc_share_value [OF lpx ord, of i] show ?thesis by simp
  qed
  have "decode (map ?f ?xs) ?xs p = Inr (sum_list (map (\<lambda>i. smul (Lf i) (?f i)) ?xs))"
    by (rule decode_value) (use lag xne in auto)
  also have "sum_list (map (\<lambda>i. smul (Lf i) (?f i)) ?xs) =
             sum_list (map (\<lambda>i. smul (Lf i) (smul (poly_sum px i 0) G)) ?xs)"
    by (rule arg_cong [of _ _ sum_list], rule map_cong) (simp_all only: fi)
  also have "\<dots> = smul (sum_list (map (\<lambda>i. Lf i * poly_sum px i 0) ?xs)) G"
    by (rule smul_sum_list)
  also have "\<dots> = smul (px ! 0) G"
    by (rule smul_cong [OF ord]) (rule interpolation_mod [OF pr d pw lxs pne], use lag in blast)
  finally show ?thesis by (simp add: px0)
qed

theorem reconstruction_correctness_witness:
  "is_prime 7 \<and> smul 7 (3::7) = 0 \<and> (1::int) \<le> 3 \<and> (3::int) < 4 \<and> (4::int) < 7 \<and>
   gen_polynomial 3 5 7 (sconst 2) = Inr ([5, 2, 2], sconst 2) \<and>
   calc_shares [5, 2, 2] 3 4 7 = Inr [2, 3, 1, 3] \<and>
   distinct [1, 2, 3 :: int] \<and> int (length [1, 2, 3 :: int]) = 3 \<and> set [1, 2, 3] \<subseteq> {1..4 :: int} \<and>
   distinct [4, 2, 3 :: int] \<and> int (length [4, 2, 3 :: int]) = 3 \<and> set [4, 2, 3] \<subseteq> {1..4 :: int} \<and>
   decode (map (\<lambda>i. smul ([2, 3, 1, 3] ! nat (i - 1)) (3::7)) [1, 2, 3]) [1, 2, 3] 7 =
     Inr (smul 5 3) \<and>
   decode (map (\<lambda>i. smul ([2, 3, 1, 3] ! nat (i - 1)) (3::7)) [4, 2, 3]) [4, 2, 3] 7 =
     Inr (smul 5 3)"
proof -
  have gp: "gen_polynomial 3 5 7 (sconst 2) = Inr ([5, 2, 2], sconst 2)"
    by (simp add: gen_polynomial_def randoms_def eval_nat_numeral)
  have cs: "calc_shares [5, 2, 2] 3 4 7 = Inr [2, 3, 1, 3]" by code_simp
  have s1: "set [1, 2, 3] \<subseteq> {1..4 :: int}" and s2: "set [4, 2, 3] \<subseteq> {1..4 :: int}" by simp_all
  have a: "decode (map (\<lambda>i. smul ([2, 3, 1, 3] ! nat (i - 1)) (3::7)) [1, 2, 3]) [1, 2, 3] 7 =
     Inr (smul 5 3)"
    by (rule reconstruction_correctness [OF is_prime_7 order_7 _ _ _ gp cs _ _ s1]) simp_all
  have b: "decode (map (\<lambda>i. smul ([2, 3, 1, 3] ! nat (i - 1)) (3::7)) [4, 2, 3]) [4, 2, 3] 7 =
     Inr (smul 5 3)"
    by (rule reconstruction_correctness [OF is_prime_7 order_7 _ _ _ gp cs _ _ s2]) simp_all
  show ?thesis using is_prime_7 order_7 [of 3] gp cs a b by simp
qed

text \<open>
  C1 as stated fails when \<open>n \<ge> p\<close>: with \<open>p = 3\<close>, \<open>t = 2\<close>, \<open>n = 4\<close> the
  indices 1 and 4 are congruent modulo \<open>p\<close>, and \<^verbatim>\<open>decode\<close> raises.
\<close>

theorem reconstruction_small_order_counterexample:
  "is_prime 3 \<and> smul 3 (1::3) = 0 \<and> (1::int) \<le> 2 \<and> (2::int) < 4 \<and>
   gen_polynomial 2 1 3 (sconst 1) = Inr ([1, 1], sconst 1) \<and>
   calc_shares [1, 1] 2 4 3 = Inr [2, 0, 1, 2] \<and>
   distinct [1, 4 :: int] \<and> int (length [1, 4 :: int]) = 2 \<and> set [1, 4] \<subseteq> {1..4 :: int} \<and>
   decode (map (\<lambda>i. smul ([2, 0, 1, 2] ! nat (i - 1)) (1::3)) [1, 4]) [1, 4] 3 = Inl NoInverse \<and>
   decode (map (\<lambda>i. smul ([2, 0, 1, 2] ! nat (i - 1)) (1::3)) [1, 4]) [1, 4] 3 \<noteq> Inr (smul 1 1)"
proof -
  have gp: "gen_polynomial 2 1 3 (sconst 1) = Inr ([1, 1], sconst 1)"
    by (simp add: gen_polynomial_def randoms_def)
  have cs: "calc_shares [1, 1] 2 4 3 = Inr [2, 0, 1, 2]" by code_simp
  have dc: "decode (map (\<lambda>i. smul ([2, 0, 1, 2] ! nat (i - 1)) (1::3)) [1, 4]) [1, 4] 3 =
      Inl NoInverse"
    by (simp add: decode_def lagrange_example_fails)
  show ?thesis using is_prime_3 order_3 [of 1] gp cs dc by simp
qed

end
